theory Spec2Isabelle
  imports Main "HOL-Library.Word" "HOL-Library.Sublist"
begin

chapter \<open>The page \<^verbatim>\<open>Mensagens.tsx\<close>\<close>

section \<open>Strings of the page\<close>

text \<open>
  The page \<^verbatim>\<open>src/pages/Mensagens.tsx\<close> works on JavaScript strings, which are sequences of
  16-bit code units. Regular expressions without the \<^verbatim>\<open>u\<close> flag match code unit by code
  unit, so a string is modelled as a list of 16-bit words. \<open>js\<close> turns an ASCII literal
  into such a string.
\<close>

type_synonym jschar = "16 word"
type_synonym jsstring = "jschar list"

definition js :: "string \<Rightarrow> jsstring" where
  "js s = map of_char s"

definition LB :: jschar where "LB = 0x5B"
definition RB :: jschar where "RB = 0x5D"
definition DOLLAR :: jschar where "DOLLAR = 0x24"
definition AMP :: jschar where "AMP = 0x26"
definition BACKTICK :: jschar where "BACKTICK = 0x60"
definition QUOTE :: jschar where "QUOTE = 0x27"
definition DOT :: jschar where "DOT = 0x2E"

text \<open>The code units that \<^verbatim>\<open>.\<close> does not match (no \<^verbatim>\<open>s\<close> flag): LF, CR, U+2028, U+2029.\<close>

definition line_terminator :: "jschar \<Rightarrow> bool" where
  "line_terminator c = (c = 0x0A \<or> c = 0x0D \<or> c = 0x2028 \<or> c = 0x2029)"

text \<open>\<^verbatim>\<open>\d\<close> is the ASCII digits only.\<close>

definition digit :: "jschar \<Rightarrow> bool" where
  "digit c = (0x30 \<le> c \<and> c \<le> 0x39)"

text \<open>\<^verbatim>\<open>String.prototype.includes\<close>: the argument occurs somewhere as a substring.\<close>

fun js_includes :: "jsstring \<Rightarrow> jsstring \<Rightarrow> bool" where
  "js_includes [] sub = (sub = [])"
| "js_includes (c # cs) sub = (prefix sub (c # cs) \<or> js_includes cs sub)"

text \<open>\<^verbatim>\<open>v.slice(1, -1)\<close>: the string without its first and its last code unit.\<close>

definition slice_1_m1 :: "jsstring \<Rightarrow> jsstring" where
  "slice_1_m1 v = butlast (tl v)"

section \<open>Data of the page\<close>

record Template =
  id_Template :: jsstring
  title :: jsstring
  content :: jsstring
  is_default :: "bool option"
  user_id :: "jsstring option"

record SupaCliente =
  id_SupaCliente :: jsstring
  nome :: jsstring
  telefone :: "jsstring option"

record SupaProcesso =
  id_SupaProcesso :: jsstring
  numero :: jsstring
  assunto :: jsstring
  status :: jsstring
  cliente_id :: jsstring

text \<open>
  The notifications the page shows with \<^verbatim>\<open>toast({title: "Erro", description, variant:
  "destructive"})\<close>, named by their description:
  \<^item> \<open>SelecioneUmCliente\<close>: "Selecione um cliente."
  \<^item> \<open>PreenchaTodasAsVariaveis\<close>: "Preencha todas as variaveis da mensagem."
  \<^item> \<open>ClienteSemTelefoneValido\<close>: "Cliente sem telefone valido."
  \<^item> \<open>ProcessosNaoCarregados\<close>: "Nao foi possivel carregar os processos do cliente."
  (written here without their accents).
\<close>

datatype toast =
    SelecioneUmCliente
  | PreenchaTodasAsVariaveis
  | ClienteSemTelefoneValido
  | ProcessosNaoCarregados

text \<open>
  The state of the component: the six \<^verbatim>\<open>useState\<close> cells, and what the page has done to
  the outside: the toasts shown, the lines written with \<^verbatim>\<open>console.error\<close>, and the
  requests of \<^verbatim>\<open>fetchProcessosByCliente\<close> that have been sent and not yet answered
  (each with the \<^verbatim>\<open>clienteId\<close> it was sent for).
\<close>

record page =
  clientes :: "SupaCliente list"
  templates :: "Template list"
  processos :: "SupaProcesso list"
  selectedCliente :: "SupaCliente option"
  selectedTemplate :: "Template option"
  variableValues :: "jsstring \<rightharpoonup> jsstring"
  toasts :: "toast list"
  console_errors :: "jsstring list"
  pending :: "jsstring list"

section \<open>The placeholders of a template: \<^verbatim>\<open>variables\<close>\<close>

text \<open>
  \<^verbatim>\<open>content.match(/\[(.*?)\]/g) || []\<close>. At an opening bracket the lazy group takes
  code units up to the first closing bracket; a line terminator before it makes the
  attempt at this position fail. \<open>capture\<close> is the text of the group for an attempt whose
  opening bracket has just been read.
\<close>

fun capture :: "jsstring \<Rightarrow> jsstring option" where
  "capture [] = None"
| "capture (c # cs) =
     (if c = RB then Some []
      else if line_terminator c then None
      else map_option ((#) c) (capture cs))"

fun match_all :: "jsstring \<Rightarrow> jsstring list" where
  "match_all [] = []"
| "match_all (c # cs) =
     (if c = LB then
        (case capture cs of
           Some k \<Rightarrow> (LB # k @ [RB]) # match_all (drop (Suc (length k)) cs)
         | None \<Rightarrow> match_all cs)
      else match_all cs)"

text \<open>\<^verbatim>\<open>[...new Set(matches)]\<close>: a set keeps the order in which its elements were first added.\<close>

definition set_add :: "'a list \<Rightarrow> 'a \<Rightarrow> 'a list" where
  "set_add seen x = (if x \<in> set seen then seen else seen @ [x])"

definition uniqueMatches :: "'a list \<Rightarrow> 'a list" where
  "uniqueMatches matches = foldl set_add [] matches"

definition variables_of :: "jsstring \<Rightarrow> jsstring list" where
  "variables_of body = map slice_1_m1 (uniqueMatches (match_all body))"

definition variables :: "page \<Rightarrow> jsstring list" where
  "variables s = (case selectedTemplate s of None \<Rightarrow> [] | Some t \<Rightarrow> variables_of (content t))"

section \<open>The rendered message: \<^verbatim>\<open>generatedMessage\<close>\<close>

text \<open>
  \<^verbatim>\<open>new RegExp(`\\[${key}\\]`, "g")\<close> puts the name into the pattern as it is. A name
  made of pattern characters stands for itself; a dot stands for any code unit that is
  not a line terminator. For these names the embedding interprets the pattern itself.

  The other syntax characters of a pattern (\<^verbatim>\<open>^ $ \ * + ? ( ) [ ] { } |\<close>) build patterns
  that only the regular-expression engine of the platform interprets (or that make the
  constructor throw). And for a name that an empty object already answers through its
  prototype (\<^verbatim>\<open>variableValues["toString"]\<close> is a function when no value was stored),
  \<^verbatim>\<open>replace\<close> can be given a function or an object instead of a string. What the line
  \<^verbatim>\<open>message = message.replace(new RegExp(`\\[${key}\\]`, "g"), value || `[${key}]`)\<close>
  does for such a name is the platform's answer and is a parameter of the embedding: an
  \<open>engine\<close> takes the name, the value stored under it in \<^verbatim>\<open>variableValues\<close> (if any) and
  the message, and gives the new message or the exception thrown. The theorems below are
  stated for every engine \<open>E\<close>.
\<close>

datatype error = SyntaxError | TypeError | URIError

type_synonym engine = "jsstring \<Rightarrow> jsstring option \<Rightarrow> jsstring \<Rightarrow> error + jsstring"

datatype atom = Literal jschar | AnyChar

definition syntax_character :: "jschar \<Rightarrow> bool" where
  "syntax_character c \<longleftrightarrow> c \<in> {0x5E, 0x24, 0x5C, 0x2E, 0x2A, 0x2B, 0x3F, 0x28, 0x29,
                                 0x5B, 0x5D, 0x7B, 0x7D, 0x7C}"

definition object_prototype_names :: "jsstring list" where
  "object_prototype_names =
     [js ''constructor'', js ''__defineGetter__'', js ''__defineSetter__'',
      js ''hasOwnProperty'', js ''__lookupGetter__'', js ''__lookupSetter__'',
      js ''isPrototypeOf'', js ''propertyIsEnumerable'', js ''toString'', js ''valueOf'',
      js ''__proto__'', js ''toLocaleString'']"

definition modelled_name :: "jsstring \<Rightarrow> bool" where
  "modelled_name key \<longleftrightarrow>
     list_all (\<lambda>c. syntax_character c \<longrightarrow> c = DOT) key \<and> key \<notin> set object_prototype_names"

definition marker :: "jsstring \<Rightarrow> jsstring" where
  "marker key = LB # key @ [RB]"

definition marker_regexp :: "jsstring \<Rightarrow> atom list" where
  "marker_regexp key =
     Literal LB # map (\<lambda>c. if c = DOT then AnyChar else Literal c) key @ [Literal RB]"

fun atom_matches :: "atom \<Rightarrow> jschar \<Rightarrow> bool" where
  "atom_matches (Literal p) c = (p = c)"
| "atom_matches AnyChar c = (\<not> line_terminator c)"

fun matches_at :: "atom list \<Rightarrow> jsstring \<Rightarrow> bool" where
  "matches_at [] s = True"
| "matches_at (a # as) [] = False"
| "matches_at (a # as) (c # cs) = (atom_matches a c \<and> matches_at as cs)"

text \<open>
  The replacement text of \<^verbatim>\<open>String.prototype.replace\<close> is a template: \<^verbatim>\<open>$$\<close> is a
  dollar sign, \<^verbatim>\<open>$&\<close> the matched text, \<^verbatim>\<open>$`\<close> the subject before the match and
  \<^verbatim>\<open>$'\<close> the subject after it. The pattern has no group, so \<^verbatim>\<open>$1\<close> and \<^verbatim>\<open>$<\<close> stay as
  they are.
\<close>

fun get_substitution :: "jsstring \<Rightarrow> jsstring \<Rightarrow> jsstring \<Rightarrow> jsstring \<Rightarrow> jsstring" where
  "get_substitution matched pre post (c # d # r) =
     (if c = DOLLAR \<and> d = DOLLAR then DOLLAR # get_substitution matched pre post r
      else if c = DOLLAR \<and> d = AMP then matched @ get_substitution matched pre post r
      else if c = DOLLAR \<and> d = BACKTICK then pre @ get_substitution matched pre post r
      else if c = DOLLAR \<and> d = QUOTE then post @ get_substitution matched pre post r
      else c # get_substitution matched pre post (d # r))"
| "get_substitution matched pre post r = r"

text \<open>
  \<^verbatim>\<open>message.replace(new RegExp(`\\[${key}\\]`, "g"), rep)\<close>: every match, from left to
  right and without overlap, gives way to the expanded replacement. \<open>pre\<close> is the part of
  the subject already passed.
\<close>

fun replace_marker :: "jsstring \<Rightarrow> jsstring \<Rightarrow> jsstring \<Rightarrow> jsstring \<Rightarrow> jsstring" where
  "replace_marker key rep pre [] = []"
| "replace_marker key rep pre (c # cs) =
     (if matches_at (marker_regexp key) (c # cs) then
        get_substitution (c # take (Suc (length key)) cs) pre (drop (Suc (length key)) cs) rep
          @ replace_marker key rep (pre @ c # take (Suc (length key)) cs)
              (drop (Suc (length key)) cs)
      else c # replace_marker key rep (pre @ [c]) cs)"

text \<open>\<^verbatim>\<open>value || `[${key}]`\<close>: an absent or empty value gives the marker back.\<close>

definition replacement :: "(jsstring \<rightharpoonup> jsstring) \<Rightarrow> jsstring \<Rightarrow> jsstring" where
  "replacement values key =
     (case values key of None \<Rightarrow> marker key | Some v \<Rightarrow> if v = [] then marker key else v)"

fun substitute_each ::
    "engine \<Rightarrow> (jsstring \<rightharpoonup> jsstring) \<Rightarrow> jsstring list \<Rightarrow> jsstring \<Rightarrow> error + jsstring" where
  "substitute_each E values [] message = Inr message"
| "substitute_each E values (key # keys) message =
     (if modelled_name key
      then substitute_each E values keys
             (replace_marker key (replacement values key) [] message)
      else
        (case E key (values key) message of
           Inl e \<Rightarrow> Inl e
         | Inr message' \<Rightarrow> substitute_each E values keys message'))"

text \<open>
  The body of the \<^verbatim>\<open>useMemo\<close> of \<^verbatim>\<open>generatedMessage\<close> for a selected template, as a
  function of the template body and the bindings: \<^verbatim>\<open>variables.forEach\<close> over the names of
  that body.
\<close>

definition render :: "engine \<Rightarrow> jsstring \<Rightarrow> (jsstring \<rightharpoonup> jsstring) \<Rightarrow> error + jsstring" where
  "render E body values = substitute_each E values (variables_of body) body"

definition generatedMessage :: "engine \<Rightarrow> page \<Rightarrow> error + jsstring" where
  "generatedMessage E s =
     (case selectedTemplate s of
        None \<Rightarrow> Inr []
      | Some t \<Rightarrow> substitute_each E (variableValues s) (variables s) (content t))"

section \<open>The handlers\<close>

definition nome_cliente :: jsstring where "nome_cliente = js ''nome_cliente''"
definition numero_processo :: jsstring where "numero_processo = js ''numero_processo''"
definition status_processo :: jsstring where "status_processo = js ''status_processo''"
definition data_audiencia :: jsstring where "data_audiencia = js ''data_audiencia''"
definition data_vencimento :: jsstring where "data_vencimento = js ''data_vencimento''"

text \<open>
  \<^verbatim>\<open>fetchProcessosByCliente\<close> is asynchronous. Calling it sends the query for
  \<^verbatim>\<open>clienteId\<close>; the lines after \<^verbatim>\<open>await\<close> run later, as an event of their own, when
  the answer \<^verbatim>\<open>{data, error}\<close> arrives.
\<close>

datatype response = Error | Data "SupaProcesso list option"

definition fetchProcessosByCliente_sent :: "jsstring \<Rightarrow> page \<Rightarrow> page" where
  "fetchProcessosByCliente_sent clienteId s = s\<lparr>pending := pending s @ [clienteId]\<rparr>"

definition fetchProcessosByCliente_resolved :: "response \<Rightarrow> page \<Rightarrow> page" where
  "fetchProcessosByCliente_resolved r s =
     (case r of
        Error \<Rightarrow>
          s\<lparr>toasts := toasts s @ [ProcessosNaoCarregados],
            console_errors := console_errors s @ [js ''Erro ao carregar processos:'']\<rparr>
      | Data d \<Rightarrow> s\<lparr>processos := (case d of None \<Rightarrow> [] | Some rows \<Rightarrow> rows)\<rparr>)"

definition handleSelectCliente :: "jsstring \<Rightarrow> page \<Rightarrow> page" where
  "handleSelectCliente clienteId s =
     (let cliente = find (\<lambda>c. id_SupaCliente c = clienteId) (clientes s);
          s' = s\<lparr>selectedCliente := cliente,
                 processos := [],
                 variableValues := (variableValues s)(numero_processo := None,
                                                      status_processo := None)\<rparr>
      in case cliente of
           None \<Rightarrow> s'
         | Some c \<Rightarrow> fetchProcessosByCliente_sent (id_SupaCliente c) s')"

definition handleSelectTemplate :: "jsstring \<Rightarrow> page \<Rightarrow> page" where
  "handleSelectTemplate templateId s =
     s\<lparr>selectedTemplate := find (\<lambda>t. id_Template t = templateId) (templates s),
       variableValues := Map.empty\<rparr>"

definition handleVariableChange :: "jsstring \<Rightarrow> jsstring \<Rightarrow> page \<Rightarrow> page" where
  "handleVariableChange varName v s = s\<lparr>variableValues := (variableValues s)(varName \<mapsto> v)\<rparr>"

text \<open>
  The effect with the dependencies \<^verbatim>\<open>[selectedCliente, variables]\<close>. It runs after a
  render in which one of them is a new value; \<^verbatim>\<open>variables\<close> is recomputed exactly when
  \<^verbatim>\<open>selectedTemplate\<close> changes. Both cells only ever hold what \<^verbatim>\<open>find\<close> returned from
  the loaded list for an id, so the same object comes back exactly when the same value does.
\<close>

definition nome_cliente_effect :: "page \<Rightarrow> page" where
  "nome_cliente_effect s =
     (case selectedCliente s of
        None \<Rightarrow> s
      | Some c \<Rightarrow>
          if nome_cliente \<in> set (variables s)
          then s\<lparr>variableValues := (variableValues s)(nome_cliente \<mapsto> nome c)\<rparr>
          else s)"

definition after_render :: "page \<Rightarrow> page \<Rightarrow> page" where
  "after_render s s' =
     (if selectedCliente s' \<noteq> selectedCliente s \<or> selectedTemplate s' \<noteq> selectedTemplate s
      then nome_cliente_effect s' else s')"

text \<open>
  The events of the page, each handled to its end before the next: the three handlers, and
  the arrival of the answer to the \<open>i\<close>-th request still open.
\<close>

datatype event =
    SelectCliente jsstring
  | SelectTemplate jsstring
  | VariableChange jsstring jsstring
  | Resolved nat response

fun step :: "page \<Rightarrow> event \<Rightarrow> page" where
  "step s (SelectCliente clienteId) = after_render s (handleSelectCliente clienteId s)"
| "step s (SelectTemplate templateId) = after_render s (handleSelectTemplate templateId s)"
| "step s (VariableChange varName v) = handleVariableChange varName v s"
| "step s (Resolved i r) =
     (if i < length (pending s)
      then fetchProcessosByCliente_resolved r
             (s\<lparr>pending := take i (pending s) @ drop (Suc i) (pending s)\<rparr>)
      else s)"

definition run :: "page \<Rightarrow> event list \<Rightarrow> page" where
  "run s es = foldl step s es"

section \<open>Sending: \<^verbatim>\<open>handleSendWhatsapp\<close>\<close>

text \<open>
  \<^verbatim>\<open>encodeURIComponent\<close>: letters, digits and \<^verbatim>\<open>- _ . ! ~ * ' ( )\<close> stay; every other
  code point is written as the bytes of its UTF-8 form, each as \<^verbatim>\<open>%XX\<close>. A surrogate
  that is not part of a pair throws \<^verbatim>\<open>URIError\<close>.
\<close>

definition uri_unescaped :: "jschar \<Rightarrow> bool" where
  "uri_unescaped c \<longleftrightarrow>
     (0x41 \<le> c \<and> c \<le> 0x5A) \<or> (0x61 \<le> c \<and> c \<le> 0x7A) \<or> (0x30 \<le> c \<and> c \<le> 0x39) \<or>
     c \<in> {0x2D, 0x5F, 0x2E, 0x21, 0x7E, 0x2A, 0x27, 0x28, 0x29}"

definition hex_digit :: "nat \<Rightarrow> jschar" where
  "hex_digit n = (if n < 10 then 0x30 + of_nat n else 0x41 + of_nat (n - 10))"

definition percent_byte :: "nat \<Rightarrow> jsstring" where
  "percent_byte b = [0x25, hex_digit (b div 16), hex_digit (b mod 16)]"

definition utf8 :: "nat \<Rightarrow> nat list" where
  "utf8 cp =
     (if cp < 0x80 then [cp]
      else if cp < 0x800 then [0xC0 + cp div 64, 0x80 + cp mod 64]
      else if cp < 0x10000 then
        [0xE0 + cp div 4096, 0x80 + (cp div 64) mod 64, 0x80 + cp mod 64]
      else
        [0xF0 + cp div 262144, 0x80 + (cp div 4096) mod 64, 0x80 + (cp div 64) mod 64,
         0x80 + cp mod 64])"

definition percent_encode :: "nat \<Rightarrow> jsstring" where
  "percent_encode cp = concat (map percent_byte (utf8 cp))"

fun encodeURIComponent :: "jsstring \<Rightarrow> error + jsstring" where
  "encodeURIComponent [] = Inr []"
| "encodeURIComponent (c # cs) =
     (if uri_unescaped c then map_sum id ((#) c) (encodeURIComponent cs)
      else if c < 0xD800 \<or> 0xDFFF < c
        then map_sum id ((@) (percent_encode (unat c))) (encodeURIComponent cs)
      else if 0xDC00 \<le> c then Inl URIError
      else
        (case cs of
           [] \<Rightarrow> Inl URIError
         | d # ds \<Rightarrow>
             if 0xDC00 \<le> d \<and> d \<le> 0xDFFF
             then map_sum id
                    ((@) (percent_encode
                            ((unat c - 0xD800) * 0x400 + (unat d - 0xDC00) + 0x10000)))
                    (encodeURIComponent ds)
             else Inl URIError))"

text \<open>\<^verbatim>\<open>(selectedCliente.telefone || "").replace(/\D/g, "")\<close>\<close>

definition phone_of :: "SupaCliente \<Rightarrow> jsstring" where
  "phone_of cliente =
     filter digit (case telefone cliente of None \<Rightarrow> [] | Some t \<Rightarrow> t)"

text \<open>
  What a click on the button ends in: a toast, the window opened on a URL, or an exception.
  \<^verbatim>\<open>generatedMessage\<close> is computed while rendering, before any click, so its error
  comes first.
\<close>

datatype outcome = Rejected toast | WindowOpen jsstring | Thrown error

text \<open>
  The condition of the second check:
  \<^verbatim>\<open>!generatedMessage || variables.some((v) => generatedMessage.includes(`[${v}]`))\<close>.
\<close>

definition message_incomplete :: "jsstring \<Rightarrow> jsstring list \<Rightarrow> bool" where
  "message_incomplete message vars \<longleftrightarrow>
     message = [] \<or> list_ex (\<lambda>v. js_includes message (marker v)) vars"

definition handleSendWhatsapp :: "engine \<Rightarrow> page \<Rightarrow> outcome" where
  "handleSendWhatsapp E s =
     (case generatedMessage E s of
        Inl e \<Rightarrow> Thrown e
      | Inr message \<Rightarrow>
          (case selectedCliente s of
             None \<Rightarrow> Rejected SelecioneUmCliente
           | Some cliente \<Rightarrow>
               if message_incomplete message (variables s)
               then Rejected PreenchaTodasAsVariaveis
               else if phone_of cliente = [] then Rejected ClienteSemTelefoneValido
               else
                 (case encodeURIComponent message of
                    Inl e \<Rightarrow> Thrown e
                  | Inr text \<Rightarrow>
                      WindowOpen (js ''https://wa.me/55'' @ phone_of cliente
                                    @ js ''?text='' @ text))))"

section \<open>The form fields\<close>

text \<open>
  The form draws one field per placeholder and chooses its kind by the name, in this order:
  \<^verbatim>\<open>numero_processo\<close> is a select over the fetched \<^verbatim>\<open>processos\<close>,
  \<^verbatim>\<open>status_processo\<close> a select over three fixed labels, \<^verbatim>\<open>data_audiencia\<close> and
  \<^verbatim>\<open>data_vencimento\<close> a calendar, every other name a text input.
\<close>

datatype SlotKind = RelationalSelect | EnumeratedSelect | Date | FreeText

definition classify :: "jsstring \<Rightarrow> SlotKind" where
  "classify varName =
     (if varName = numero_processo then RelationalSelect
      else if varName = status_processo then EnumeratedSelect
      else if varName = data_audiencia \<or> varName = data_vencimento then Date
      else FreeText)"

chapter \<open>The specification\<close>

section \<open>What the specification says, in its own words\<close>

text \<open>
  The specification reads a template as text with markers in it. \<open>tokens\<close> is that reading,
  made by the same attempts as \<open>match_all\<close>: a \<open>Slot\<close> for each marker found, a \<open>Chr\<close> for
  every other code unit.
\<close>

datatype token = Chr jschar | Slot jsstring

fun tokens :: "jsstring \<Rightarrow> token list" where
  "tokens [] = []"
| "tokens (c # cs) =
     (if c = LB then
        (case capture cs of
           Some k \<Rightarrow> Slot k # tokens (drop (Suc (length k)) cs)
         | None \<Rightarrow> Chr c # tokens cs)
      else Chr c # tokens cs)"

fun slot_names :: "token list \<Rightarrow> jsstring list" where
  "slot_names [] = []"
| "slot_names (Chr c # ts) = slot_names ts"
| "slot_names (Slot k # ts) = k # slot_names ts"

text \<open>The text with every marker \<open>[k]\<close> given way to \<open>f k\<close>, all at once.\<close>

fun fill :: "(jsstring \<Rightarrow> jsstring) \<Rightarrow> token list \<Rightarrow> jsstring" where
  "fill f [] = []"
| "fill f (Chr c # ts) = c # fill f ts"
| "fill f (Slot k # ts) = f k @ fill f ts"

text \<open>
  Renderer: every occurrence of a marker is replaced by the bound value if it is present and
  not empty, and is left as it is otherwise.
\<close>

definition render_spec :: "jsstring \<Rightarrow> (jsstring \<rightharpoonup> jsstring) \<Rightarrow> jsstring" where
  "render_spec body values = fill (replacement values) (tokens body)"

text \<open>CompletionValidator: every placeholder found by the parser has a non-empty value.\<close>

definition bound :: "(jsstring \<rightharpoonup> jsstring) \<Rightarrow> jsstring \<Rightarrow> bool" where
  "bound values k = (case values k of None \<Rightarrow> False | Some v \<Rightarrow> v \<noteq> [])"

definition all_bound :: "jsstring \<Rightarrow> (jsstring \<rightharpoonup> jsstring) \<Rightarrow> bool" where
  "all_bound body values = list_all (bound values) (variables_of body)"

text \<open>The other wording: the rendered output contains no marker any more.\<close>

definition no_marker_left :: "jsstring \<Rightarrow> bool" where
  "no_marker_left message \<longleftrightarrow> match_all message = []"

text \<open>
  Two texts that differ only where a marker stood: the same pieces \<open>segs\<close> around it, with
  \<open>x\<close> at each of its places in one text and \<open>y\<close> in the other.
\<close>

fun join :: "'a list \<Rightarrow> 'a list list \<Rightarrow> 'a list" where
  "join x [] = []"
| "join x [s] = s"
| "join x (s # t # ss) = s @ x @ join x (t # ss)"

definition differ_only_at ::
    "nat \<Rightarrow> jsstring \<Rightarrow> jsstring \<Rightarrow> jsstring \<Rightarrow> jsstring \<Rightarrow> bool" where
  "differ_only_at n x y m m' \<longleftrightarrow>
     (\<exists>segs. length segs = Suc n \<and> m = join x segs \<and> m' = join y segs)"

text \<open>The position at which a name first occurs in a list.\<close>

definition first_index :: "'a list \<Rightarrow> 'a \<Rightarrow> nat" where
  "first_index xs x = length (takeWhile (\<lambda>y. y \<noteq> x) xs)"

text \<open>
  Where a marker stands in a text: an opening bracket at position \<open>i\<close>, the first closing
  bracket after it at position \<open>j\<close>, and no line terminator between the two.
\<close>

definition opens :: "jsstring \<Rightarrow> nat \<Rightarrow> nat \<Rightarrow> bool" where
  "opens s i j \<longleftrightarrow>
     i < j \<and> j < length s \<and> s ! i = LB \<and> s ! j = RB \<and>
     (\<forall>m. i < m \<and> m < j \<longrightarrow> s ! m \<noteq> RB \<and> \<not> line_terminator (s ! m))"

section \<open>Names and values on which the textual replacement is the substitution\<close>

text \<open>
  A plain name has no syntax character of a pattern and is no property of
  \<^verbatim>\<open>Object.prototype\<close>: its pattern matches its marker and nothing else. A plain value
  has no opening bracket and none of the two-character sequences that
  \<^verbatim>\<open>replace\<close> expands.
\<close>

definition plain_name :: "jsstring \<Rightarrow> bool" where
  "plain_name key \<longleftrightarrow>
     list_all (\<lambda>c. \<not> syntax_character c) key \<and> key \<notin> set object_prototype_names"

fun has_dollar_pattern :: "jsstring \<Rightarrow> bool" where
  "has_dollar_pattern (c # d # r) =
     (c = DOLLAR \<and> (d = DOLLAR \<or> d = AMP \<or> d = BACKTICK \<or> d = QUOTE)
      \<or> has_dollar_pattern (d # r))"
| "has_dollar_pattern r = False"

definition plain_value :: "jsstring \<Rightarrow> bool" where
  "plain_value v \<longleftrightarrow> LB \<notin> set v \<and> \<not> has_dollar_pattern v"

definition plain_values :: "jsstring \<Rightarrow> (jsstring \<rightharpoonup> jsstring) \<Rightarrow> bool" where
  "plain_values body values \<longleftrightarrow>
     list_all (\<lambda>k. case values k of None \<Rightarrow> True | Some v \<Rightarrow> plain_value v) (variables_of body)"

definition plain_template :: "jsstring \<Rightarrow> bool" where
  "plain_template body = list_all plain_name (variables_of body)"

chapter \<open>Examples and notions of the proofs\<close>

section \<open>Example data\<close>

text \<open>
  Two clients, one case of the first, and four templates: the empty one, the one of the
  scenario (\<open>0xE1\<close> is the letter a with an acute accent), a short one, and one whose second
  placeholder is named by a dot.
\<close>

definition maria :: SupaCliente where
  "maria = \<lparr>id_SupaCliente = js ''c1'', nome = js ''Maria'',
             telefone = Some (js ''(11) 91234-5678'')\<rparr>"

definition joao :: SupaCliente where
  "joao = \<lparr>id_SupaCliente = js ''c2'', nome = js ''Joao'',
            telefone = Some (js ''21 99999-0000'')\<rparr>"

definition processo_maria :: SupaProcesso where
  "processo_maria =
     \<lparr>id_SupaProcesso = js ''p1'', numero = js ''123/2024'', assunto = js ''Cobranca'',
      status = js ''Em Andamento'', cliente_id = js ''c1''\<rparr>"

definition modelo_vazio :: Template where
  "modelo_vazio =
     \<lparr>id_Template = js ''t0'', title = js ''Vazio'', content = [],
      is_default = None, user_id = None\<rparr>"

definition modelo_andamento :: Template where
  "modelo_andamento =
     \<lparr>id_Template = js ''t1'', title = js ''Andamento'',
      content = js ''Ol'' @ [0xE1] @ js '' [nome_cliente], seu processo [numero_processo] est''
                  @ [0xE1] @ js '' [status_processo].'',
      is_default = None, user_id = None\<rparr>"

definition modelo_curto :: Template where
  "modelo_curto =
     \<lparr>id_Template = js ''t2'', title = js ''Curto'', content = js ''Oi [nome_cliente]'',
      is_default = None, user_id = None\<rparr>"

definition modelo_ponto :: Template where
  "modelo_ponto =
     \<lparr>id_Template = js ''t3'', title = js ''Ponto'', content = js ''[x] [.]'',
      is_default = None, user_id = None\<rparr>"

definition modelos :: "Template list" where
  "modelos = [modelo_vazio, modelo_andamento, modelo_curto, modelo_ponto]"

text \<open>
  No example below has a name that is left to the engine, so the engine given to them is
  never asked and the results are the same for every engine. This one throws.
\<close>

definition no_engine :: engine where
  "no_engine key v message = Inl SyntaxError"

text \<open>The page after the lists of clients and templates have been loaded.\<close>

definition page0 :: page where
  "page0 =
     \<lparr>clientes = [maria, joao], templates = modelos, processos = [],
      selectedCliente = None, selectedTemplate = None, variableValues = Map.empty,
      toasts = [], console_errors = [], pending = []\<rparr>"

text \<open>Maria and the scenario template selected, her case fetched, every field filled in.\<close>

definition page_scenario :: page where
  "page_scenario =
     \<lparr>clientes = [maria, joao], templates = modelos, processos = [processo_maria],
      selectedCliente = Some maria, selectedTemplate = Some modelo_andamento,
      variableValues = [nome_cliente \<mapsto> js ''Maria'', numero_processo \<mapsto> js ''123/2024'',
                        status_processo \<mapsto> js ''Em Andamento''],
      toasts = [], console_errors = [], pending = []\<rparr>"

text \<open>Maria and the empty template selected.\<close>

definition page_vazio :: page where
  "page_vazio =
     \<lparr>clientes = [maria, joao], templates = modelos, processos = [processo_maria],
      selectedCliente = Some maria, selectedTemplate = Some modelo_vazio,
      variableValues = Map.empty, toasts = [], console_errors = [], pending = []\<rparr>"

text \<open>Maria selected, then Joao, before the answer to the request for Maria has arrived.\<close>

definition page_race :: page where
  "page_race =
     \<lparr>clientes = [maria, joao], templates = modelos, processos = [],
      selectedCliente = Some joao, selectedTemplate = None,
      variableValues = Map.empty, toasts = [], console_errors = [],
      pending = [js ''c1'', js ''c2'']\<rparr>"

text \<open>Maria and the short template selected; the effect has filled in her name.\<close>

definition page_curta :: page where
  "page_curta =
     \<lparr>clientes = [maria, joao], templates = modelos, processos = [processo_maria],
      selectedCliente = Some maria, selectedTemplate = Some modelo_curto,
      variableValues = [nome_cliente \<mapsto> js ''Maria''],
      toasts = [], console_errors = [], pending = []\<rparr>"

text \<open>
  Maria and the template with the placeholders \<^verbatim>\<open>x\<close> and \<^verbatim>\<open>.\<close> selected, a value typed
  into the field of the second only.
\<close>

definition page_ponto :: page where
  "page_ponto =
     \<lparr>clientes = [maria, joao], templates = modelos, processos = [processo_maria],
      selectedCliente = Some maria, selectedTemplate = Some modelo_ponto,
      variableValues = [js ''.'' \<mapsto> js ''V''],
      toasts = [], console_errors = [], pending = []\<rparr>"

section \<open>Notions of the proofs\<close>

text \<open>
  What the proofs need of a name: no bracket, no dot, no dollar sign, no line terminator.
  What they need of the text \<open>f k\<close> standing at the place of a marker: it is the marker
  itself, or it has no opening bracket.
\<close>

definition clean_name :: "jsstring \<Rightarrow> bool" where
  "clean_name k \<longleftrightarrow>
     LB \<notin> set k \<and> RB \<notin> set k \<and> DOT \<notin> set k \<and> DOLLAR \<notin> set k
     \<and> \<not> list_ex line_terminator k"

definition fills_ok :: "(jsstring \<Rightarrow> jsstring) \<Rightarrow> token list \<Rightarrow> bool" where
  "fills_ok f ts \<longleftrightarrow>
     (\<forall>k \<in> set (slot_names ts). clean_name k \<and> (f k = marker k \<or> LB \<notin> set (f k)))"

definition value_ok :: "(jsstring \<rightharpoonup> jsstring) \<Rightarrow> jsstring \<Rightarrow> bool" where
  "value_ok values k \<longleftrightarrow> (case values k of None \<Rightarrow> True | Some v \<Rightarrow> plain_value v)"

text \<open>
  An opening bracket that starts no marker: before any closing bracket and before any marker
  comes a line terminator, another opening bracket, or the end.
\<close>

fun stray_ok :: "token list \<Rightarrow> bool" where
  "stray_ok [] = True"
| "stray_ok (Slot k # ts) = False"
| "stray_ok (Chr c # ts) =
     (if c = RB then False else if line_terminator c \<or> c = LB then True else stray_ok ts)"

fun wf :: "token list \<Rightarrow> bool" where
  "wf [] = True"
| "wf (Slot k # ts) = wf ts"
| "wf (Chr c # ts) = ((c = LB \<longrightarrow> stray_ok ts) \<and> wf ts)"

chapter \<open>Lemmas\<close>

section \<open>Facts for evaluation\<close>

lemmas char_defs = LB_def RB_def DOLLAR_def AMP_def BACKTICK_def QUOTE_def DOT_def

lemmas name_defs = nome_cliente_def numero_processo_def status_processo_def
  data_audiencia_def data_vencimento_def

lemmas example_defs = maria_def joao_def modelo_andamento_def modelo_vazio_def modelo_curto_def
  modelo_ponto_def modelos_def processo_maria_def page0_def page_scenario_def page_vazio_def
  page_race_def page_curta_def page_ponto_def

lemmas render_defs = generatedMessage_def render_def variables_def variables_of_def
  uniqueMatches_def set_add_def slice_1_m1_def replacement_def modelled_name_def
  syntax_character_def object_prototype_names_def marker_regexp_def marker_def
  line_terminator_def js_def replace_marker.simps

lemmas handler_defs = handleSelectCliente_def handleSelectTemplate_def handleVariableChange_def
  fetchProcessosByCliente_sent_def fetchProcessosByCliente_resolved_def nome_cliente_effect_def
  after_render_def run_def

lemmas send_defs = handleSendWhatsapp_def message_incomplete_def phone_of_def digit_def
  uri_unescaped_def percent_encode_def percent_byte_def hex_digit_def utf8_def

lemma names_distinct:
  "nome_cliente \<noteq> numero_processo" "nome_cliente \<noteq> status_processo"
  "numero_processo \<noteq> status_processo"
  "data_audiencia \<noteq> numero_processo" "data_audiencia \<noteq> status_processo"
  "data_vencimento \<noteq> numero_processo" "data_vencimento \<noteq> status_processo"
  "nome_cliente \<noteq> data_audiencia" "nome_cliente \<noteq> data_vencimento"
  by (simp_all add: name_defs js_def)

text \<open>Each example page is what the page is after some events, starting from \<open>page0\<close>.\<close>

lemma example_pages_reached:
  "run page0 [SelectCliente (js ''c1''), SelectTemplate (js ''t1''),
              Resolved 0 (Data (Some [processo_maria])),
              VariableChange numero_processo (js ''123/2024''),
              VariableChange status_processo (js ''Em Andamento'')] = page_scenario"
  "run page0 [SelectCliente (js ''c1''), Resolved 0 (Data (Some [processo_maria])),
              SelectTemplate (js ''t0'')] = page_vazio"
  "run page0 [SelectCliente (js ''c1''), Resolved 0 (Data (Some [processo_maria])),
              SelectTemplate (js ''t2'')] = page_curta"
  "run page0 [SelectCliente (js ''c1''), Resolved 0 (Data (Some [processo_maria])),
              SelectTemplate (js ''t3''), VariableChange (js ''.'') (js ''V'')] = page_ponto"
  "run page0 [SelectCliente (js ''c1''), SelectCliente (js ''c2'')] = page_race"
  by (simp_all add: handler_defs example_defs name_defs render_defs char_defs)

section \<open>Digits\<close>

lemma digit_codes: "digit c \<longleftrightarrow> c \<in> set (js ''0123456789'')"
proof
  assume "c \<in> set (js ''0123456789'')"
  then show "digit c" by (auto simp: js_def digit_def)
next
  assume "digit c"
  then have "48 \<le> unat c" "unat c \<le> 57"
    by (simp_all add: digit_def word_le_nat_alt)
  then have "unat c = 48 \<or> unat c = 49 \<or> unat c = 50 \<or> unat c = 51 \<or> unat c = 52
      \<or> unat c = 53 \<or> unat c = 54 \<or> unat c = 55 \<or> unat c = 56 \<or> unat c = 57"
    by arith
  then have "c \<in> {48, 49, 50, 51, 52, 53, 54, 55, 56, 57}"
    by (auto simp: word_unat_eq_iff)
  then show "c \<in> set (js ''0123456789'')"
    by (auto simp: js_def)
qed

section \<open>Brackets\<close>

lemma bracket_facts [simp]:
  "LB \<noteq> RB" "RB \<noteq> LB" "\<not> line_terminator LB" "\<not> line_terminator RB"
  "LB \<noteq> DOLLAR" "RB \<noteq> DOLLAR" "LB \<noteq> DOT" "RB \<noteq> DOT"
  "DOLLAR \<noteq> LB" "DOLLAR \<noteq> RB" "DOT \<noteq> LB" "DOT \<noteq> RB"
  "syntax_character LB" "syntax_character RB" "syntax_character DOLLAR" "syntax_character DOT"
  by (simp_all add: char_defs line_terminator_def syntax_character_def)

section \<open>Matching markers\<close>

lemma capture_SomeD:
  "capture cs = Some k \<Longrightarrow>
     (\<exists>rest. cs = k @ RB # rest) \<and> RB \<notin> set k \<and> \<not> list_ex line_terminator k"
proof (induction cs arbitrary: k)
  case Nil
  then show ?case by simp
next
  case (Cons c cs)
  show ?case
  proof (cases "c = RB")
    case True
    with Cons.prems show ?thesis by simp
  next
    case False
    with Cons.prems obtain k' where k': "capture cs = Some k'" "k = c # k'" "\<not> line_terminator c"
      by (auto split: if_splits)
    from Cons.IH [OF k'(1)] k' False show ?thesis by auto
  qed
qed

lemma capture_drop:
  "capture cs = Some k \<Longrightarrow> cs = k @ RB # drop (Suc (length k)) cs"
  by (drule capture_SomeD) auto

lemma capture_marker:
  "RB \<notin> set k \<Longrightarrow> \<not> list_ex line_terminator k \<Longrightarrow> capture (k @ RB # rest) = Some k"
  by (induction k) auto

lemma slice_marker [simp]: "slice_1_m1 (marker k) = k"
  by (simp add: slice_1_m1_def marker_def)

lemma marker_inj [simp]: "marker a = marker b \<longleftrightarrow> a = b"
  by (simp add: marker_def)

lemma marker_append: "marker k @ r = LB # k @ RB # r"
  by (simp add: marker_def)

lemma fill_marker_tokens: "fill marker (tokens s) = s"
proof (induction s rule: tokens.induct)
  case 1
  show ?case by simp
next
  case (2 c cs)
  show ?case
  proof (cases "c = LB")
    case False
    with 2 show ?thesis by simp
  next
    case True
    show ?thesis
    proof (cases "capture cs")
      case None
      with True 2 show ?thesis by simp
    next
      case (Some k)
      let ?r = "drop (Suc (length k)) cs"
      from Some True 2 have "fill marker (tokens ?r) = ?r"
        by simp
      then have "fill marker (tokens (c # cs)) = LB # k @ RB # ?r"
        using Some True by (simp add: marker_append)
      also have "k @ RB # ?r = cs"
        using capture_drop [OF Some] by simp
      finally show ?thesis using True by simp
    qed
  qed
qed

lemma match_all_tokens: "match_all s = map marker (slot_names (tokens s))"
  by (induction s rule: tokens.induct) (auto simp: marker_def split: option.splits)

lemma tokens_marker:
  "RB \<notin> set a \<Longrightarrow> \<not> list_ex line_terminator a \<Longrightarrow>
   tokens (marker a @ rest) = Slot a # tokens rest"
  by (simp add: marker_def capture_marker)

lemma slot_names_tokens_clean:
  "k \<in> set (slot_names (tokens s)) \<Longrightarrow> RB \<notin> set k \<and> \<not> list_ex line_terminator k"
proof (induction s rule: tokens.induct)
  case 1
  then show ?case by simp
next
  case (2 c cs)
  then show ?case
    by (auto split: if_splits option.splits dest: capture_SomeD)
qed

section \<open>Set order\<close>

lemma uniqueMatches_snoc:
  "uniqueMatches (xs @ [x]) = set_add (uniqueMatches xs) x"
  by (simp add: uniqueMatches_def)

lemma set_uniqueMatches [simp]: "set (uniqueMatches xs) = set xs"
  by (induction xs rule: rev_induct) (auto simp: uniqueMatches_snoc set_add_def uniqueMatches_def)

lemma distinct_uniqueMatches [simp]: "distinct (uniqueMatches xs)"
  by (induction xs rule: rev_induct) (auto simp: uniqueMatches_snoc set_add_def uniqueMatches_def)

lemma map_uniqueMatches:
  "inj_on f (set xs) \<Longrightarrow> map f (uniqueMatches xs) = uniqueMatches (map f xs)"
proof (induction xs rule: rev_induct)
  case Nil
  show ?case by (simp add: uniqueMatches_def)
next
  case (snoc x xs)
  then have inj: "inj_on f (set xs)" and mem: "f x \<in> f ` set xs \<longleftrightarrow> x \<in> set xs"
    by (auto simp: inj_on_def)
  have "uniqueMatches (map f (xs @ [x])) = set_add (uniqueMatches (map f xs)) (f x)"
    using uniqueMatches_snoc [of "map f xs" "f x"] by simp
  also have "\<dots> = set_add (map f (uniqueMatches xs)) (f x)"
    using snoc.IH [OF inj] by simp
  also have "\<dots> = map f (set_add (uniqueMatches xs) x)"
    using mem by (simp add: set_add_def)
  finally show ?case
    by (simp add: uniqueMatches_snoc)
qed

lemma first_index_append_in:
  "y \<in> set xs \<Longrightarrow> first_index (xs @ zs) y = first_index xs y"
  by (simp add: first_index_def takeWhile_append1)

lemma first_index_less: "y \<in> set xs \<Longrightarrow> first_index xs y < length xs"
  by (induction xs) (auto simp: first_index_def)

lemma first_index_notin: "y \<notin> set xs \<Longrightarrow> first_index (xs @ y # zs) y = length xs"
  by (induction xs) (auto simp: first_index_def)

lemma sorted_uniqueMatches:
  "sorted_wrt (\<lambda>x y. first_index xs x < first_index xs y) (uniqueMatches xs)"
proof (induction xs rule: rev_induct)
  case Nil
  show ?case by (simp add: uniqueMatches_def)
next
  case (snoc x xs)
  have old: "sorted_wrt (\<lambda>a b. first_index (xs @ [x]) a < first_index (xs @ [x]) b)
               (uniqueMatches xs)"
    using snoc.IH
    by (rule sorted_wrt_mono_rel [rotated]) (simp add: first_index_append_in)
  show ?case
  proof (cases "x \<in> set xs")
    case True
    with old show ?thesis by (simp add: uniqueMatches_snoc set_add_def)
  next
    case False
    have "first_index (xs @ [x]) a < first_index (xs @ [x]) x" if "a \<in> set xs" for a
      using that False by (simp add: first_index_append_in first_index_less first_index_notin)
    with old False show ?thesis
      by (simp add: uniqueMatches_snoc set_add_def sorted_wrt_append)
  qed
qed

lemma variables_of_slot_names:
  "variables_of body = uniqueMatches (slot_names (tokens body))"
proof -
  have "inj_on slice_1_m1 (set (map marker (slot_names (tokens body))))"
    by (auto simp: inj_on_def)
  then show ?thesis
    by (simp add: variables_of_def match_all_tokens map_uniqueMatches [symmetric] comp_def)
       (simp add: map_uniqueMatches comp_def)
qed

lemma plain_name_clean:
  "plain_name k \<Longrightarrow> \<not> list_ex line_terminator k \<Longrightarrow> clean_name k"
  by (auto simp: plain_name_def clean_name_def list_all_iff)

lemma plain_name_modelled: "plain_name k \<Longrightarrow> modelled_name k"
  by (auto simp: plain_name_def modelled_name_def list_all_iff)

section \<open>The first marker of a text\<close>

lemma opens_shift: "opens (c # cs) (Suc i) (Suc j) \<longleftrightarrow> opens cs i j"
proof
  assume l: "opens (c # cs) (Suc i) (Suc j)"
  have "cs ! m \<noteq> RB \<and> \<not> line_terminator (cs ! m)" if "i < m" "m < j" for m
    using l that by (auto simp: opens_def dest: spec [of _ "Suc m"])
  with l show "opens cs i j" by (simp add: opens_def)
next
  assume r: "opens cs i j"
  have "(c # cs) ! m \<noteq> RB \<and> \<not> line_terminator ((c # cs) ! m)" if "Suc i < m" "m < Suc j" for m
  proof -
    from that obtain m' where "m = Suc m'" "i < m'" "m' < j" by (cases m) auto
    with r show ?thesis by (simp add: opens_def)
  qed
  with r show "opens (c # cs) (Suc i) (Suc j)" by (simp add: opens_def)
qed

lemma opens_later: "opens (c # cs) (Suc i) j \<Longrightarrow> \<exists>j'. j = Suc j' \<and> opens cs i j'"
  by (cases j) (auto simp: opens_shift, simp add: opens_def)

lemma capture_opens:
  assumes "capture cs = Some k"
  shows "opens (LB # cs) 0 (Suc (length k))"
proof -
  from capture_SomeD [OF assms] obtain rest where cs: "cs = k @ RB # rest"
    and k: "RB \<notin> set k" "\<not> list_ex line_terminator k"
    by blast
  have "(LB # cs) ! m \<noteq> RB \<and> \<not> line_terminator ((LB # cs) ! m)"
    if "0 < m" "m < Suc (length k)" for m
  proof -
    from that obtain m' where m': "m = Suc m'" "m' < length k" by (cases m) auto
    then have "(LB # cs) ! m = k ! m'" by (simp add: cs nth_append)
    moreover have "k ! m' \<in> set k" using m' by simp
    ultimately show ?thesis using k by (auto simp: list_ex_iff)
  qed
  then show ?thesis by (simp add: opens_def cs nth_append)
qed

lemma opens_capture:
  "opens (LB # cs) 0 j \<Longrightarrow> capture cs = Some (take (j - 1) cs)"
proof (induction cs arbitrary: j)
  case Nil
  then show ?case by (auto simp: opens_def)
next
  case (Cons x xs)
  show ?case
  proof (cases "j = 1")
    case True
    with Cons.prems show ?thesis by (simp add: opens_def)
  next
    case False
    with Cons.prems obtain j' where j: "j = Suc (Suc j')"
      by (cases j; cases "j - 1") (auto simp: opens_def)
    from Cons.prems have x: "x \<noteq> RB" "\<not> line_terminator x"
      using j by (auto simp: opens_def dest: spec [of _ 1])
    have "opens (LB # xs) 0 (Suc j')"
    proof -
      have "(LB # xs) ! m \<noteq> RB \<and> \<not> line_terminator ((LB # xs) ! m)"
        if "0 < m" "m < Suc j'" for m
      proof -
        from that obtain m' where "m = Suc m'" by (cases m) auto
        with that Cons.prems j show ?thesis
          by (auto simp: opens_def dest: spec [of _ "Suc (Suc m')"])
      qed
      with Cons.prems j show ?thesis by (simp add: opens_def)
    qed
    from Cons.IH [OF this] x j show ?thesis by simp
  qed
qed

lemma match_all_none:
  "\<forall>i j. \<not> opens s i j \<Longrightarrow> match_all s = []"
proof (induction s)
  case Nil
  show ?case by simp
next
  case (Cons c cs)
  have "\<forall>i j. \<not> opens cs i j"
    using Cons.prems opens_shift by blast
  then have rest: "match_all cs = []" by (rule Cons.IH)
  have "capture cs = None" if "c = LB"
  proof (cases "capture cs")
    case (Some k)
    from capture_opens [OF this] that Cons.prems show ?thesis by blast
  qed simp
  with rest show ?case by simp
qed

lemma match_all_first:
  "opens s i j \<Longrightarrow> \<forall>i' j'. i' < i \<longrightarrow> \<not> opens s i' j' \<Longrightarrow>
   match_all s = marker (take (j - Suc i) (drop (Suc i) s)) # match_all (drop (Suc j) s)"
proof (induction i arbitrary: s j)
  case 0
  then obtain c cs where s: "s = c # cs" by (cases s) (auto simp: opens_def)
  with 0 have c: "c = LB" by (simp add: opens_def)
  from opens_capture 0(1) have cap: "capture cs = Some (take (j - 1) cs)"
    unfolding s c by blast
  have len: "length (take (j - 1) cs) = j - 1" and j: "0 < j"
    using 0(1) by (auto simp: opens_def s)
  from cap len j show ?case
    by (simp add: s c marker_def)
next
  case (Suc i)
  then obtain c cs where s: "s = c # cs" by (cases s) (auto simp: opens_def)
  from Suc.prems(1) obtain j' where j: "j = Suc j'" and o: "opens cs i j'"
    unfolding s by (blast dest: opens_later)
  have none: "\<forall>i' j'. i' < i \<longrightarrow> \<not> opens cs i' j'"
  proof (intro allI impI)
    fix i' j'' assume "i' < i"
    then have "\<not> opens s (Suc i') (Suc j'')" using Suc.prems(2) by simp
    then show "\<not> opens cs i' j''" by (simp add: s opens_shift)
  qed
  have "capture cs = None" if "c = LB"
  proof (cases "capture cs")
    case (Some k)
    from capture_opens [OF this] that Suc.prems(2) show ?thesis
      unfolding s by blast
  qed simp
  then have "match_all s = match_all cs" by (simp add: s)
  with Suc.IH [OF o none] show ?case by (simp add: s j)
qed


lemma uniqueMatches_Cons:
  "uniqueMatches (x # xs) = x # filter (\<lambda>y. y \<noteq> x) (uniqueMatches xs)"
proof (induction xs rule: rev_induct)
  case Nil
  show ?case by (simp add: uniqueMatches_def set_add_def)
next
  case (snoc y xs)
  have "uniqueMatches (x # xs @ [y]) = set_add (uniqueMatches (x # xs)) y"
    using uniqueMatches_snoc [of "x # xs" y] by simp
  with snoc show ?case
    by (auto simp: uniqueMatches_snoc set_add_def)
qed

lemma slot_names_first:
  assumes "opens s i j" and "\<forall>i' j'. i' < i \<longrightarrow> \<not> opens s i' j'"
  shows "slot_names (tokens s)
           = take (j - Suc i) (drop (Suc i) s) # slot_names (tokens (drop (Suc j) s))"
proof -
  have "map slice_1_m1 (match_all t) = slot_names (tokens t)" for t
    by (simp add: match_all_tokens comp_def)
  from this [of s, symmetric] this [of "drop (Suc j) s"] match_all_first [OF assms]
  show ?thesis by simp
qed

lemma opens_LB: "opens s i j \<Longrightarrow> s ! i = LB \<and> i < length s"
  by (simp add: opens_def)

section \<open>One replacement\<close>

lemma matches_at_literal: "matches_at (map Literal p) s \<longleftrightarrow> prefix p s"
  by (induction "map Literal p" s arbitrary: p rule: matches_at.induct) auto

lemma marker_regexp_plain:
  "DOT \<notin> set key \<Longrightarrow> marker_regexp key = map Literal (marker key)"
  by (induction key) (auto simp: marker_regexp_def marker_def)

lemma matches_marker_plain:
  "DOT \<notin> set key \<Longrightarrow> matches_at (marker_regexp key) s \<longleftrightarrow> prefix (marker key) s"
  by (simp add: marker_regexp_plain matches_at_literal)

lemma matches_needs_LB: "c \<noteq> LB \<Longrightarrow> \<not> matches_at (marker_regexp key) (c # s)"
  by (auto simp: marker_regexp_def)

lemma replace_marker_no_match:
  "\<not> matches_at (marker_regexp key) (c # cs) \<Longrightarrow>
   replace_marker key rep pre (c # cs) = c # replace_marker key rep (pre @ [c]) cs"
  by simp

lemma replace_marker_match:
  "matches_at (marker_regexp key) (c # cs) \<Longrightarrow>
   replace_marker key rep pre (c # cs) =
     get_substitution (c # take (Suc (length key)) cs) pre (drop (Suc (length key)) cs) rep
       @ replace_marker key rep (pre @ c # take (Suc (length key)) cs)
           (drop (Suc (length key)) cs)"
  by simp

declare replace_marker.simps(2) [simp del]

lemma get_substitution_plain:
  "\<not> has_dollar_pattern rep \<Longrightarrow> get_substitution m p q rep = rep"
  by (induction m p q rep rule: get_substitution.induct) auto

lemma has_dollar_pattern_no_dollar: "DOLLAR \<notin> set r \<Longrightarrow> \<not> has_dollar_pattern r"
  by (induction r rule: has_dollar_pattern.induct) auto

lemma marker_no_dollar_pattern: "clean_name k \<Longrightarrow> \<not> has_dollar_pattern (marker k)"
  by (rule has_dollar_pattern_no_dollar) (auto simp: marker_def clean_name_def)

lemma replace_marker_skip:
  "LB \<notin> set u \<Longrightarrow>
   replace_marker key rep pre (u @ s) = u @ replace_marker key rep (pre @ u) s"
proof (induction u arbitrary: pre)
  case Nil
  show ?case by simp
next
  case (Cons a u)
  then have "a \<noteq> LB" by auto
  from replace_marker_no_match [OF matches_needs_LB [OF this]] Cons show ?case by simp
qed

lemma replace_marker_hit:
  assumes "DOT \<notin> set key"
  shows "replace_marker key rep pre (marker key @ s) =
           get_substitution (marker key) pre s rep @ replace_marker key rep (pre @ marker key) s"
proof -
  have "matches_at (marker_regexp key) (LB # key @ RB # s)"
    using assms by (simp add: matches_marker_plain marker_def)
  from replace_marker_match [OF this] show ?thesis
    by (simp add: marker_def)
qed

lemma replace_marker_miss:
  assumes "DOT \<notin> set key" and "\<not> prefix (key @ [RB]) s"
  shows "replace_marker key rep pre (LB # s) = LB # replace_marker key rep (pre @ [LB]) s"
proof -
  have "\<not> matches_at (marker_regexp key) (LB # s)"
    using assms by (simp add: matches_marker_plain marker_def)
  then show ?thesis by (rule replace_marker_no_match)
qed

lemma prefix_marker_same:
  assumes "RB \<notin> set j" and "RB \<notin> set k" and "prefix (j @ [RB]) (k @ RB # r)"
  shows "j = k"
  using assms
proof (induction j arbitrary: k)
  case Nil
  then show ?case by (cases k) auto
next
  case (Cons a j)
  then show ?case by (cases k) auto
qed

lemma replace_marker_pass:
  assumes "clean_name j" and "clean_name k" and "k \<noteq> j"
    and "x = marker k \<or> LB \<notin> set x"
  shows "replace_marker j rep pre (x @ s) = x @ replace_marker j rep (pre @ x) s"
proof (cases "LB \<in> set x")
  case False
  then show ?thesis by (rule replace_marker_skip)
next
  case True
  with assms have x: "x = marker k" by blast
  have dot: "DOT \<notin> set j" and rb: "RB \<notin> set j" "RB \<notin> set k" and lb: "LB \<notin> set (k @ [RB])"
    using assms by (simp_all add: clean_name_def)
  have "\<not> prefix (j @ [RB]) (k @ RB # s)"
    using prefix_marker_same [OF rb] assms(3) by blast
  then have "replace_marker j rep pre (LB # k @ RB # s) =
               LB # replace_marker j rep (pre @ [LB]) ((k @ [RB]) @ s)"
    using replace_marker_miss [OF dot] by simp
  also have "\<dots> = LB # (k @ [RB]) @ replace_marker j rep ((pre @ [LB]) @ k @ [RB]) s"
    using replace_marker_skip [OF lb] by simp
  finally show ?thesis
    by (simp add: x marker_def)
qed

section \<open>Stray brackets\<close>

lemma stray_no_marker:
  assumes "stray_ok ts" and "LB \<notin> set j" and "RB \<notin> set j" and "\<not> list_ex line_terminator j"
  shows "\<not> prefix (j @ [RB]) (fill f ts)"
  using assms
proof (induction ts arbitrary: j)
  case Nil
  then show ?case by simp
next
  case (Cons t ts)
  show ?case
  proof (cases t)
    case (Slot k)
    with Cons.prems show ?thesis by simp
  next
    case (Chr c)
    show ?thesis
    proof (cases j)
      case Nil
      with Chr Cons.prems show ?thesis by (auto split: if_splits)
    next
      case (Cons a j')
      with Chr Cons.prems Cons.IH [of j'] show ?thesis
        by (auto split: if_splits)
    qed
  qed
qed

lemma stray_tokens: "capture s = None \<Longrightarrow> stray_ok (tokens s)"
proof (induction s rule: tokens.induct)
  case 1
  show ?case by simp
next
  case (2 c cs)
  then show ?case
    by (auto split: if_splits option.splits)
qed

lemma wf_tokens: "wf (tokens s)"
  by (induction s rule: tokens.induct) (auto split: option.splits simp: stray_tokens)

section \<open>One replacement, on a text with markers\<close>

lemma fills_ok_Chr [simp]: "fills_ok f (Chr c # ts) = fills_ok f ts"
  by (simp add: fills_ok_def)

lemma fills_ok_Slot [simp]:
  "fills_ok f (Slot k # ts) \<longleftrightarrow>
     clean_name k \<and> (f k = marker k \<or> LB \<notin> set (f k)) \<and> fills_ok f ts"
  by (simp add: fills_ok_def)

lemma replace_marker_fill:
  assumes "wf ts" and "fills_ok f ts" and "clean_name j" and "f j = marker j"
    and "\<not> has_dollar_pattern rep"
  shows "replace_marker j rep pre (fill f ts) = fill (f(j := rep)) ts"
  using assms(1,2)
proof (induction ts arbitrary: pre)
  case Nil
  show ?case by simp
next
  case (Cons t ts)
  have dot: "DOT \<notin> set j" using assms(3) by (simp add: clean_name_def)
  show ?case
  proof (cases t)
    case (Chr c)
    show ?thesis
    proof (cases "c = LB")
      case False
      from replace_marker_no_match [OF matches_needs_LB [OF this]] Chr Cons show ?thesis
        by simp
    next
      case True
      with Chr Cons.prems have "stray_ok ts" by simp
      then have "\<not> prefix (j @ [RB]) (fill f ts)"
        using assms(3) by (intro stray_no_marker) (simp_all add: clean_name_def)
      from replace_marker_miss [OF dot this] Chr True Cons show ?thesis by simp
    qed
  next
    case (Slot k)
    with Cons.prems have k: "clean_name k" "f k = marker k \<or> LB \<notin> set (f k)"
      and rest: "wf ts" "fills_ok f ts"
      by simp_all
    show ?thesis
    proof (cases "k = j")
      case True
      have "replace_marker j rep pre (marker j @ fill f ts) =
              rep @ replace_marker j rep (pre @ marker j) (fill f ts)"
        using replace_marker_hit [OF dot] assms(5) by (simp add: get_substitution_plain)
      with True Slot assms(4) Cons.IH [OF rest] show ?thesis by simp
    next
      case False
      from replace_marker_pass [OF assms(3) k(1) False k(2)] False Slot Cons.IH [OF rest]
      show ?thesis by simp
    qed
  qed
qed

section \<open>All replacements\<close>

lemma fill_cong:
  "(\<And>k. k \<in> set (slot_names ts) \<Longrightarrow> f k = g k) \<Longrightarrow> fill f ts = fill g ts"
  by (induction ts rule: slot_names.induct) simp_all

lemma replacement_cases:
  "replacement values k = (if bound values k then the (values k) else marker k)"
  by (simp add: replacement_def bound_def split: option.splits)

lemma replacement_ok:
  assumes "value_ok values k" and "clean_name k"
  shows "\<not> has_dollar_pattern (replacement values k)"
    and "replacement values k = marker k \<or> LB \<notin> set (replacement values k)"
  using assms marker_no_dollar_pattern [of k]
  by (auto simp: value_ok_def replacement_def plain_value_def split: option.splits)

lemma replacement_marker_iff:
  assumes "value_ok values k"
  shows "replacement values k = marker k \<longleftrightarrow> \<not> bound values k"
  using assms
  by (auto simp: value_ok_def replacement_def plain_value_def bound_def marker_def
           split: option.splits)

lemma substitute_each_fill:
  assumes "wf ts" and "distinct keys" and "fills_ok f ts"
    and "\<forall>k \<in> set keys. plain_name k \<and> clean_name k \<and> value_ok values k \<and> f k = marker k"
  shows "substitute_each E values keys (fill f ts) =
           Inr (fill (\<lambda>k. if k \<in> set keys then replacement values k else f k) ts)"
  using assms(2-)
proof (induction keys arbitrary: f)
  case Nil
  show ?case by simp
next
  case (Cons j keys)
  let ?r = "replacement values j"
  from Cons.prems have j: "plain_name j" "clean_name j" "value_ok values j" "f j = marker j"
    by simp_all
  have step: "replace_marker j ?r [] (fill f ts) = fill (f(j := ?r)) ts"
    using assms(1) Cons.prems(2) j(2,4) replacement_ok(1) [OF j(3,2)]
    by (rule replace_marker_fill)
  have ok: "fills_ok (f(j := ?r)) ts"
    using Cons.prems(2) replacement_ok(2) [OF j(3,2)] by (auto simp: fills_ok_def)
  have rest: "\<forall>k \<in> set keys. plain_name k \<and> clean_name k \<and> value_ok values k
                \<and> (f(j := ?r)) k = marker k"
    using Cons.prems by auto
  have "distinct keys" using Cons.prems by simp
  from Cons.IH [OF this ok rest]
  have "substitute_each E values keys (fill (f(j := ?r)) ts) =
          Inr (fill (\<lambda>k. if k \<in> set keys then replacement values k else (f(j := ?r)) k) ts)" .
  moreover have "(\<lambda>k. if k \<in> set keys then replacement values k else (f(j := ?r)) k) =
                 (\<lambda>k. if k \<in> set (j # keys) then replacement values k else f k)"
    by auto
  ultimately show ?case
    using j(1) step by (simp add: plain_name_modelled)
qed

lemma plain_template_clean:
  assumes "plain_template body" and "k \<in> set (slot_names (tokens body))"
  shows "plain_name k" and "clean_name k"
proof -
  from assms show "plain_name k"
    by (simp add: plain_template_def variables_of_slot_names list_all_iff)
  with slot_names_tokens_clean [OF assms(2)] show "clean_name k"
    by (simp add: plain_name_clean)
qed

lemma plain_values_ok:
  "plain_values body values \<Longrightarrow> k \<in> set (slot_names (tokens body)) \<Longrightarrow> value_ok values k"
  by (simp add: plain_values_def value_ok_def variables_of_slot_names list_all_iff)

lemma fills_ok_marker:
  "plain_template body \<Longrightarrow> fills_ok marker (tokens body)"
  by (simp add: fills_ok_def plain_template_clean)

lemma fills_ok_replacement:
  "plain_template body \<Longrightarrow> plain_values body values \<Longrightarrow>
   fills_ok (replacement values) (tokens body)"
  by (simp add: fills_ok_def plain_template_clean replacement_ok plain_values_ok)

lemma render_fill:
  assumes "plain_template body" and "plain_values body values"
  shows "render E body values = Inr (fill (replacement values) (tokens body))"
proof -
  let ?ts = "tokens body"
  have keys: "set (variables_of body) = set (slot_names ?ts)" "distinct (variables_of body)"
    by (simp_all add: variables_of_slot_names)
  have "substitute_each E values (variables_of body) (fill marker ?ts) =
          Inr (fill (\<lambda>k. if k \<in> set (variables_of body) then replacement values k else marker k) ?ts)"
    using wf_tokens keys(2) fills_ok_marker [OF assms(1)]
  proof (rule substitute_each_fill)
    show "\<forall>k \<in> set (variables_of body).
            plain_name k \<and> clean_name k \<and> value_ok values k \<and> marker k = marker k"
      using assms by (simp add: keys plain_template_clean plain_values_ok)
  qed
  moreover have "fill (\<lambda>k. if k \<in> set (variables_of body) then replacement values k else marker k) ?ts
                 = fill (replacement values) ?ts"
    by (rule fill_cong) (simp add: keys)
  ultimately show ?thesis
    by (simp add: render_def fill_marker_tokens)
qed

section \<open>Markers left in the message\<close>

lemma includes_append_left: "js_includes s sub \<Longrightarrow> js_includes (u @ s) sub"
  by (induction u) auto

lemma includes_prefix: "prefix sub s \<Longrightarrow> js_includes s sub"
  by (cases s) auto

lemma includes_skip:
  "LB \<notin> set u \<Longrightarrow> js_includes (u @ s) (LB # x) = js_includes s (LB # x)"
  by (induction u) auto

lemma includes_fill_slot:
  "k \<in> set (slot_names ts) \<Longrightarrow> js_includes (fill g ts) (g k)"
proof (induction ts rule: slot_names.induct)
  case 1
  then show ?case by simp
next
  case (2 c ts)
  then show ?case by simp
next
  case (3 k' ts)
  show ?case
  proof (cases "k' = k")
    case True
    then show ?thesis by (simp add: includes_prefix)
  next
    case False
    with 3 show ?thesis by (simp add: includes_append_left)
  qed
qed

lemma includes_after_marker:
  assumes "clean_name j" and "clean_name k" and "j \<noteq> k"
  shows "js_includes (marker j @ s) (marker k) = js_includes s (marker k)"
proof -
  have "\<not> prefix (k @ [RB]) (j @ RB # s)"
    using prefix_marker_same [of k j s] assms by (auto simp: clean_name_def)
  moreover have "js_includes ((j @ [RB]) @ s) (LB # k @ [RB]) = js_includes s (LB # k @ [RB])"
    using assms(1) by (intro includes_skip) (simp add: clean_name_def)
  ultimately show ?thesis
    by (simp add: marker_def)
qed

lemma not_includes_fill:
  assumes "wf ts" and "fills_ok g ts" and "clean_name k"
    and "\<forall>k' \<in> set (slot_names ts). g k' = marker k' \<longrightarrow> k' \<noteq> k"
  shows "\<not> js_includes (fill g ts) (marker k)"
  using assms(1,2,4)
proof (induction ts)
  case Nil
  show ?case by (simp add: marker_def)
next
  case (Cons t ts)
  show ?case
  proof (cases t)
    case (Chr c)
    have "\<not> prefix (k @ [RB]) (fill g ts)" if "c = LB"
      using that Chr Cons.prems(1) assms(3)
      by (intro stray_no_marker) (simp_all add: clean_name_def)
    with Chr Cons show ?thesis
      by (auto simp: marker_def)
  next
    case (Slot k')
    with Cons have rest: "\<not> js_includes (fill g ts) (marker k)"
      by simp
    from Slot Cons.prems have k': "clean_name k'" "g k' = marker k' \<or> LB \<notin> set (g k')"
      "g k' = marker k' \<longrightarrow> k' \<noteq> k"
      by simp_all
    show ?thesis
    proof (cases "LB \<in> set (g k')")
      case False
      then have "js_includes (g k' @ fill g ts) (LB # k @ [RB]) = js_includes (fill g ts) (LB # k @ [RB])"
        by (rule includes_skip)
      with rest Slot show ?thesis by (simp add: marker_def)
    next
      case True
      with k' have "g k' = marker k'" "k' \<noteq> k" by auto
      with includes_after_marker [OF k'(1) assms(3)] rest Slot show ?thesis by simp
    qed
  qed
qed

lemma includes_fill_iff:
  assumes "wf ts" and "fills_ok g ts" and "k \<in> set (slot_names ts)"
  shows "js_includes (fill g ts) (marker k) \<longleftrightarrow> g k = marker k"
proof
  assume "g k = marker k"
  with includes_fill_slot [OF assms(3), of g] show "js_includes (fill g ts) (marker k)" by simp
next
  assume inc: "js_includes (fill g ts) (marker k)"
  show "g k = marker k"
  proof (rule ccontr)
    assume "g k \<noteq> marker k"
    then have "\<forall>k' \<in> set (slot_names ts). g k' = marker k' \<longrightarrow> k' \<noteq> k" by auto
    moreover have "clean_name k" using assms(2,3) by (simp add: fills_ok_def)
    ultimately show False using not_includes_fill [OF assms(1,2)] inc by blast
  qed
qed

section \<open>Markers found again in the message\<close>

lemma capture_stray:
  "wf ts \<Longrightarrow> stray_ok ts \<Longrightarrow> capture (fill g ts) = None"
proof (induction ts)
  case Nil
  show ?case by simp
next
  case (Cons t ts)
  then show ?case
    by (cases t) (auto split: if_splits)
qed

lemma match_all_skip: "LB \<notin> set u \<Longrightarrow> match_all (u @ s) = match_all s"
  by (induction u) auto

lemma match_all_marker:
  "clean_name k \<Longrightarrow> match_all (marker k @ s) = marker k # match_all s"
  by (simp add: marker_def capture_marker clean_name_def)

lemma match_all_fill:
  assumes "wf ts" and "fills_ok g ts"
  shows "match_all (fill g ts) = map marker (filter (\<lambda>k. g k = marker k) (slot_names ts))"
  using assms
proof (induction ts)
  case Nil
  show ?case by simp
next
  case (Cons t ts)
  show ?case
  proof (cases t)
    case (Chr c)
    with Cons show ?thesis
      by (auto simp: capture_stray)
  next
    case (Slot k)
    with Cons.prems have k: "clean_name k" "g k = marker k \<or> LB \<notin> set (g k)" by simp_all
    show ?thesis
    proof (cases "g k = marker k")
      case True
      with Slot Cons k show ?thesis by (simp add: match_all_marker)
    next
      case False
      with k have "LB \<notin> set (g k)" by simp
      with False Slot Cons show ?thesis by (simp add: match_all_skip)
    qed
  qed
qed

section \<open>Texts that differ at one marker\<close>

lemma join_first: "join x ((u @ s) # ss) = u @ join x (s # ss)"
  by (cases ss) simp_all

lemma join_Cons: "join x ((c # s) # ss) = c # join x (s # ss)"
  by (cases ss) simp_all

lemma fill_join:
  assumes "\<And>k. k \<noteq> n \<Longrightarrow> f k = g k"
  shows "\<exists>segs. length segs = Suc (count_list (slot_names ts) n) \<and>
           fill f ts = join (f n) segs \<and> fill g ts = join (g n) segs"
proof (induction ts)
  case Nil
  have "length [[]::jsstring] = Suc 0 \<and> [] = join (f n) [[]] \<and> [] = join (g n) [[]]" by simp
  then show ?case by (auto intro: exI [of _ "[[]]"])
next
  case (Cons t ts)
  then obtain segs where "length segs = Suc (count_list (slot_names ts) n)"
    "fill f ts = join (f n) segs" "fill g ts = join (g n) segs"
    by blast
  then obtain s ss where segs: "length (s # ss) = Suc (count_list (slot_names ts) n)"
    "fill f ts = join (f n) (s # ss)" "fill g ts = join (g n) (s # ss)"
    by (cases segs) auto
  show ?case
  proof (cases t)
    case (Chr c)
    have "fill f (t # ts) = join (f n) ((c # s) # ss)" "fill g (t # ts) = join (g n) ((c # s) # ss)"
      using segs Chr by (simp_all add: join_Cons)
    with segs(1) Chr show ?thesis
      by (intro exI [of _ "(c # s) # ss"]) simp
  next
    case (Slot k)
    show ?thesis
    proof (cases "k = n")
      case True
      with segs Slot show ?thesis
        by (intro exI [of _ "[] # s # ss"]) simp
    next
      case False
      then have eq: "f k = g k" by (rule assms)
      have "fill f (t # ts) = join (f n) ((f k @ s) # ss)" "fill g (t # ts) = join (g n) ((f k @ s) # ss)"
        using segs Slot eq by (simp_all add: join_first)
      with segs(1) Slot False show ?thesis
        by (intro exI [of _ "(f k @ s) # ss"]) simp
    qed
  qed
qed

section \<open>A marker without a value stays\<close>

lemma prefix_marker_take:
  assumes "prefix (marker j) (c # cs)"
  shows "c # take (Suc (length j)) cs = marker j"
    and "c # cs = marker j @ drop (Suc (length j)) cs"
proof -
  from assms obtain r where r: "c # cs = marker j @ r" by (auto simp: prefix_def)
  then have "cs = (j @ [RB]) @ r" by (simp add: marker_def)
  then show "c # take (Suc (length j)) cs = marker j"
    and "c # cs = marker j @ drop (Suc (length j)) cs"
    using r by (simp_all add: marker_def)
qed

lemma replace_marker_keeps:
  assumes "clean_name j" and "clean_name k" and "j \<noteq> k"
  shows "js_includes s (marker k) \<Longrightarrow> js_includes (replace_marker j rep pre s) (marker k)"
proof (induction s arbitrary: pre rule: length_induct)
  case (1 s)
  have dot: "DOT \<notin> set j" using assms(1) by (simp add: clean_name_def)
  show ?case
  proof (cases s)
    case Nil
    with 1 show ?thesis by simp
  next
    case (Cons c cs)
    show ?thesis
    proof (cases "matches_at (marker_regexp j) (c # cs)")
      case True
      let ?rest = "drop (Suc (length j)) cs"
      from True have p: "prefix (marker j) (c # cs)"
        using dot by (simp add: matches_marker_plain)
      have "js_includes (marker j @ ?rest) (marker k)"
        using 1(2) Cons prefix_marker_take(2) [OF p] by simp
      then have "js_includes ?rest (marker k)"
        using includes_after_marker [OF assms] by simp
      moreover have "length ?rest < length s" using Cons by simp
      ultimately have "js_includes (replace_marker j rep (pre @ c # take (Suc (length j)) cs) ?rest)
                         (marker k)"
        using 1(1) by blast
      then show ?thesis
        using Cons replace_marker_match [OF True] by (simp add: includes_append_left)
    next
      case False
      note step = replace_marker_no_match [OF False, of rep pre]
      show ?thesis
      proof (cases "prefix (marker k) (c # cs)")
        case True
        then have c: "c = LB" and "prefix (k @ [RB]) cs" by (simp_all add: marker_def)
        then obtain r where r: "cs = (k @ [RB]) @ r" by (auto simp: prefix_def)
        have "LB \<notin> set (k @ [RB])" using assms(2) by (simp add: clean_name_def)
        from replace_marker_skip [OF this, of j rep _ r] r
        have "replace_marker j rep (pre @ [c]) cs =
                (k @ [RB]) @ replace_marker j rep ((pre @ [c]) @ k @ [RB]) r"
          by simp
        with step Cons c show ?thesis
          by (simp add: marker_def)
      next
        case False
        with 1(2) Cons have "js_includes cs (marker k)" by simp
        moreover have "length cs < length s" using Cons by simp
        ultimately have "js_includes (replace_marker j rep (pre @ [c]) cs) (marker k)"
          using 1(1) by blast
        with step Cons show ?thesis by simp
      qed
    qed
  qed
qed

lemma replace_marker_same:
  assumes "clean_name k"
  shows "replace_marker k (marker k) pre s = s"
proof (induction s arbitrary: pre rule: length_induct)
  case (1 s)
  have dot: "DOT \<notin> set k" using assms by (simp add: clean_name_def)
  show ?case
  proof (cases s)
    case Nil
    then show ?thesis by simp
  next
    case (Cons c cs)
    show ?thesis
    proof (cases "matches_at (marker_regexp k) (c # cs)")
      case True
      let ?rest = "drop (Suc (length k)) cs"
      from True have p: "prefix (marker k) (c # cs)"
        using dot by (simp add: matches_marker_plain)
      have "length ?rest < length s" using Cons by simp
      with 1 have "replace_marker k (marker k) (pre @ c # take (Suc (length k)) cs) ?rest = ?rest"
        by blast
      with replace_marker_match [OF True, of "marker k" pre] prefix_marker_take [OF p] Cons
      show ?thesis
        by (simp add: get_substitution_plain marker_no_dollar_pattern [OF assms])
    next
      case False
      have "length cs < length s" using Cons by simp
      with 1 have "replace_marker k (marker k) (pre @ [c]) cs = cs" by blast
      with replace_marker_no_match [OF False] Cons show ?thesis by simp
    qed
  qed
qed

lemma substitute_each_keeps:
  assumes "clean_name k" and "\<not> bound values k"
  shows "\<forall>j \<in> set keys. plain_name j \<and> clean_name j \<Longrightarrow> js_includes m (marker k) \<Longrightarrow>
         \<exists>m'. substitute_each E values keys m = Inr m' \<and> js_includes m' (marker k)"
proof (induction keys arbitrary: m)
  case Nil
  then show ?case by simp
next
  case (Cons j keys)
  then have j: "plain_name j" "clean_name j" by simp_all
  have "js_includes (replace_marker j (replacement values j) [] m) (marker k)"
  proof (cases "j = k")
    case True
    with assms(2) have "replacement values j = marker k"
      by (simp add: replacement_cases)
    with True Cons.prems(2) show ?thesis
      by (simp add: replace_marker_same [OF assms(1)])
  next
    case False
    from replace_marker_keeps [OF j(2) assms(1) False Cons.prems(2)] show ?thesis .
  qed
  with Cons j show ?case
    by (simp add: plain_name_modelled)
qed

lemma unbound_plain_placeholder_incomplete:
  assumes "plain_template body" and "\<not> all_bound body values"
  shows "\<exists>m. render E body values = Inr m \<and> message_incomplete m (variables_of body)"
proof -
  from assms(2) obtain k where k: "k \<in> set (variables_of body)" "\<not> bound values k"
    by (auto simp: all_bound_def list_all_iff)
  then have slot: "k \<in> set (slot_names (tokens body))"
    by (simp add: variables_of_slot_names)
  have "js_includes (fill marker (tokens body)) (marker k)"
    using slot by (rule includes_fill_slot)
  then have "js_includes body (marker k)"
    by (simp add: fill_marker_tokens)
  moreover have "\<forall>j \<in> set (variables_of body). plain_name j \<and> clean_name j"
    using assms(1) by (simp add: variables_of_slot_names plain_template_clean)
  ultimately obtain m where "substitute_each E values (variables_of body) body = Inr m"
    "js_includes m (marker k)"
    using substitute_each_keeps [OF plain_template_clean(2) [OF assms(1) slot] k(2)] by blast
  with k(1) show ?thesis
    by (auto simp: render_def message_incomplete_def list_ex_iff)
qed

lemma generatedMessage_render:
  "selectedTemplate s = Some t \<Longrightarrow> generatedMessage E s = render E (content t) (variableValues s)"
  by (simp add: generatedMessage_def render_def variables_def)

text \<open>Where every name is interpreted by the embedding, the engine is never asked.\<close>

lemma substitute_each_any_engine:
  "list_all modelled_name keys \<Longrightarrow>
   substitute_each E values keys m = substitute_each E' values keys m"
  by (induction keys arbitrary: m) simp_all

lemma render_any_engine:
  "list_all modelled_name (variables_of body) \<Longrightarrow> render E body values = render E' body values"
  unfolding render_def by (rule substitute_each_any_engine)

lemma substitute_each_modelled:
  "\<forall>j \<in> set keys. modelled_name j \<Longrightarrow> \<exists>m'. substitute_each E values keys m = Inr m'"
  by (induction keys arbitrary: m) simp_all

chapter \<open>The properties\<close>

section \<open>The parser\<close>

text \<open>
  C9: the names returned for a template body are distinct, they are the enclosed texts of
  the markers matched in the body, and they stand in the order in which each first occurs
  among all the matches. A body in which no marker stands gives no name. Otherwise, with
  the first marker of the body standing from \<open>i\<close> to \<open>j\<close>, the first name is the text between
  the two brackets, whatever text comes before the marker, and the other names are the names
  of the body after \<open>j\<close> without the first name: a name that occurs again is returned once.
  A marker is matched whatever follows it, another marker included: no white space is needed
  between markers.
\<close>

theorem placeholder_names_first_occurrence:
  "distinct (variables_of body) \<and>
   set (variables_of body) = set (map slice_1_m1 (match_all body)) \<and>
   sorted_wrt (\<lambda>x y. first_index (map slice_1_m1 (match_all body)) x
                        < first_index (map slice_1_m1 (match_all body)) y) (variables_of body) \<and>
   ((\<forall>i j. \<not> opens body i j) \<longrightarrow> match_all body = [] \<and> variables_of body = []) \<and>
   (opens body i j \<and> (\<forall>i' j'. i' < i \<longrightarrow> \<not> opens body i' j') \<longrightarrow>
      match_all body
        = marker (take (j - Suc i) (drop (Suc i) body)) # match_all (drop (Suc j) body) \<and>
      variables_of body
        = take (j - Suc i) (drop (Suc i) body)
            # filter (\<lambda>k. k \<noteq> take (j - Suc i) (drop (Suc i) body))
                (variables_of (drop (Suc j) body))) \<and>
   (RB \<notin> set a \<and> \<not> list_ex line_terminator a \<longrightarrow>
      match_all (marker a @ rest) = marker a # match_all rest)"
proof -
  have names: "map slice_1_m1 (match_all body) = slot_names (tokens body)"
    by (simp add: match_all_tokens comp_def)
  have none: "(\<forall>i j. \<not> opens body i j) \<longrightarrow> match_all body = [] \<and> variables_of body = []"
    using match_all_none [of body] by (simp add: variables_of_def uniqueMatches_def)
  have first: "opens body i j \<and> (\<forall>i' j'. i' < i \<longrightarrow> \<not> opens body i' j') \<longrightarrow>
      match_all body
        = marker (take (j - Suc i) (drop (Suc i) body)) # match_all (drop (Suc j) body) \<and>
      variables_of body
        = take (j - Suc i) (drop (Suc i) body)
            # filter (\<lambda>k. k \<noteq> take (j - Suc i) (drop (Suc i) body))
                (variables_of (drop (Suc j) body))"
    using match_all_first [of body i j] slot_names_first [of body i j]
    by (simp add: variables_of_slot_names uniqueMatches_Cons)
  have next_to: "RB \<notin> set a \<and> \<not> list_ex line_terminator a \<longrightarrow>
      match_all (marker a @ rest) = marker a # match_all rest"
    by (simp add: marker_def capture_marker)
  have "sorted_wrt (\<lambda>x y. first_index (slot_names (tokens body)) x
                        < first_index (slot_names (tokens body)) y) (variables_of body)"
    by (simp add: variables_of_slot_names sorted_uniqueMatches)
  then have order: "sorted_wrt (\<lambda>x y. first_index (map slice_1_m1 (match_all body)) x
                        < first_index (map slice_1_m1 (match_all body)) y) (variables_of body)"
    by (simp add: names)
  have "distinct (variables_of body)"
    and "set (variables_of body) = set (map slice_1_m1 (match_all body))"
    by (simp_all add: names variables_of_slot_names)
  with order none first next_to show ?thesis by blast
qed

theorem placeholder_names_first_occurrence_witness:
  "opens (js ''Oi [a][b] [a]'') 3 5 \<and>
   variables_of (js ''Oi [a][b] [a]'') = [js ''a'', js ''b''] \<and>
   variables_of (js ''sem marcadores'') = [] \<and>
   match_all (marker (js ''a'') @ marker (js ''b'')) = [marker (js ''a''), marker (js ''b'')] \<and>
   map (\<lambda>c. variables_of [LB, 0x61, c, RB]) [0x0A, 0x0D, 0x2028, 0x2029, 0x20]
     = [[], [], [], [], [[0x61, 0x20]]]"
proof -
  let ?body = "js ''Oi [a][b] [a]''"
  have "m = 4" if "3 < m" "m < 5" for m :: nat
    using that by simp
  then have o: "opens ?body 3 5"
    by (auto simp: opens_def js_def char_defs line_terminator_def)
  have e: "\<forall>i' j'. i' < 3 \<longrightarrow> \<not> opens ?body i' j'"
  proof (intro allI impI notI)
    fix i' j' :: nat
    assume "i' < 3" and "opens ?body i' j'"
    then have "?body ! i' = LB" and "i' = 0 \<or> i' = 1 \<or> i' = 2"
      by (auto dest: opens_LB)
    then show False
      by (auto simp: js_def LB_def)
  qed
  have rest: "variables_of (drop (Suc 5) ?body) = [js ''b'', js ''a'']"
    by (simp add: render_defs char_defs)
  have k: "take (5 - Suc 3) (drop (Suc 3) ?body) = js ''a''"
    by (simp add: js_def)
  from placeholder_names_first_occurrence [of ?body 3 5] o e
  have "variables_of ?body
          = take (5 - Suc 3) (drop (Suc 3) ?body)
              # filter (\<lambda>k. k \<noteq> take (5 - Suc 3) (drop (Suc 3) ?body))
                  (variables_of (drop (Suc 5) ?body))"
    by blast
  then have 1: "variables_of ?body = [js ''a'', js ''b'']"
    unfolding rest k by (simp add: js_def)
  have "\<forall>i j. \<not> opens (js ''sem marcadores'') i j"
  proof (intro allI notI)
    fix i j assume "opens (js ''sem marcadores'') i j"
    then have "js ''sem marcadores'' ! i = LB" "i < length (js ''sem marcadores'')"
      by (auto dest: opens_LB)
    then have "LB \<in> set (js ''sem marcadores'')"
      by (metis nth_mem)
    then show False by (simp add: js_def LB_def)
  qed
  with placeholder_names_first_occurrence [of "js ''sem marcadores''"]
  have 2: "variables_of (js ''sem marcadores'') = []"
    by blast
  have "RB \<notin> set (js ''a'') \<and> \<not> list_ex line_terminator (js ''a'')"
    by (simp add: js_def RB_def line_terminator_def)
  with placeholder_names_first_occurrence [of _ _ _ "js ''a''" "marker (js ''b'')"]
  have "match_all (marker (js ''a'') @ marker (js ''b''))
          = marker (js ''a'') # match_all (marker (js ''b''))"
    by blast
  moreover have "match_all (marker (js ''b'')) = [marker (js ''b'')]"
    by (simp add: render_defs char_defs)
  moreover have "map (\<lambda>c. variables_of [LB, 0x61, c, RB]) [0x0A, 0x0D, 0x2028, 0x2029, 0x20]
                   = [[], [], [], [], [[0x61, 0x20]]]"
    by (simp add: render_defs char_defs)
  ultimately show ?thesis using o 1 2 by simp
qed

section \<open>The renderer\<close>

text \<open>
  C4, as the specification states it, fails. The replacements are made one name after the
  other, each on the message the one before left: a value that holds the marker of a later
  name is replaced in its turn. And \<^verbatim>\<open>replace\<close> expands \<^verbatim>\<open>$&\<close> in a value to the
  matched marker.
\<close>

theorem cascade_is_not_substitution:
  "render no_engine (js ''[a] [b]'') [js ''a'' \<mapsto> js ''[b]'', js ''b'' \<mapsto> js ''X''] = Inr (js ''X X'') \<and>
   render_spec (js ''[a] [b]'') [js ''a'' \<mapsto> js ''[b]'', js ''b'' \<mapsto> js ''X'']
     = js ''[b] X'' \<and>
   render no_engine (js ''[a]'') [js ''a'' \<mapsto> js ''$&''] = Inr (js ''[a]'') \<and>
   render_spec (js ''[a]'') [js ''a'' \<mapsto> js ''$&''] = js ''$&''"
  by (simp add: render_spec_def render_defs char_defs)

text \<open>
  C4, amended: for every template whose placeholder names are plain (no syntax character
  of a regular expression, no property name of \<^verbatim>\<open>Object.prototype\<close>) and every binding map
  whose values for these names are plain (no opening bracket, none of \<^verbatim>\<open>$$ $& $` $'\<close>),
  the rendered message is the template with every occurrence of every marker replaced by
  the bound value where it is present and not empty, and left as it is otherwise. The
  scenario template with Maria, 123/2024 and Em Andamento renders as the specification
  says (shown on the example that follows).
\<close>

theorem render_is_substitution:
  assumes "plain_template body" and "plain_values body values"
  shows "render E body values = Inr (render_spec body values)"
  using render_fill [OF assms] by (simp add: render_spec_def)

theorem render_is_substitution_witness:
  "plain_template (content modelo_andamento) \<and>
   plain_values (content modelo_andamento) (variableValues page_scenario) \<and>
   render no_engine (content modelo_andamento) (variableValues page_scenario)
     = Inr (js ''Ol'' @ [0xE1] @ js '' Maria, seu processo 123/2024 est'' @ [0xE1]
              @ js '' Em Andamento.'') \<and>
   generatedMessage no_engine page_scenario
     = Inr (js ''Ol'' @ [0xE1] @ js '' Maria, seu processo 123/2024 est'' @ [0xE1]
              @ js '' Em Andamento.'')"
proof -
  have vars: "variables_of (content modelo_andamento)
                = [nome_cliente, numero_processo, status_processo]"
    by (simp add: example_defs name_defs render_defs char_defs)
  have h1: "plain_template (content modelo_andamento)"
    unfolding plain_template_def vars
    by (simp add: plain_name_def name_defs syntax_character_def object_prototype_names_def
          js_def)
  have h2: "plain_values (content modelo_andamento) (variableValues page_scenario)"
    unfolding plain_values_def vars
    by (simp add: page_scenario_def plain_value_def names_distinct)
       (simp add: name_defs char_defs js_def)
  have "render_spec (content modelo_andamento) (variableValues page_scenario)
          = js ''Ol'' @ [0xE1] @ js '' Maria, seu processo 123/2024 est'' @ [0xE1]
              @ js '' Em Andamento.''"
    by (simp add: render_spec_def example_defs name_defs replacement_def char_defs
          line_terminator_def marker_def js_def)
  with render_is_substitution [OF h1 h2, where E = no_engine]
  have r: "render no_engine (content modelo_andamento) (variableValues page_scenario)
             = Inr (js ''Ol'' @ [0xE1] @ js '' Maria, seu processo 123/2024 est'' @ [0xE1]
                      @ js '' Em Andamento.'')"
    by simp
  have "generatedMessage no_engine page_scenario
          = render no_engine (content modelo_andamento) (variableValues page_scenario)"
    by (rule generatedMessage_render) (simp add: page_scenario_def)
  with r h1 h2 show ?thesis by simp
qed

text \<open>
  C5, as the specification states it, fails in its second part: with the value of
  \<^verbatim>\<open>a\<close> holding the marker of \<^verbatim>\<open>b\<close>, a change of the value of \<^verbatim>\<open>b\<close> alone changes the
  message at the place of the marker of \<^verbatim>\<open>a\<close> too. The two messages are not one text
  with \<^verbatim>\<open>X\<close> and with \<^verbatim>\<open>Y\<close> at the one place where the marker of \<^verbatim>\<open>b\<close> stands.
\<close>

theorem cascade_changes_elsewhere:
  "render no_engine (js ''[a] [b]'') [js ''a'' \<mapsto> js ''[b]'', js ''b'' \<mapsto> js ''X''] = Inr (js ''X X'') \<and>
   render no_engine (js ''[a] [b]'') [js ''a'' \<mapsto> js ''[b]'', js ''b'' \<mapsto> js ''Y''] = Inr (js ''Y Y'') \<and>
   count_list (slot_names (tokens (js ''[a] [b]''))) (js ''b'') = 1 \<and>
   \<not> differ_only_at 1 (js ''X'') (js ''Y'') (js ''X X'') (js ''Y Y'')"
proof -
  have "\<not> differ_only_at 1 (js ''X'') (js ''Y'') (js ''X X'') (js ''Y Y'')"
  proof
    assume "differ_only_at 1 (js ''X'') (js ''Y'') (js ''X X'') (js ''Y Y'')"
    then obtain segs where segs: "length segs = Suc (Suc 0)" "js ''X X'' = join (js ''X'') segs"
      "js ''Y Y'' = join (js ''Y'') segs"
      by (auto simp: differ_only_at_def)
    from segs(1) obtain s t where "segs = [s, t]"
      by (cases segs; cases "tl segs") auto
    with segs have "js ''X X'' = s @ js ''X'' @ t" "js ''Y Y'' = s @ js ''Y'' @ t"
      by simp_all
    then have eqs: "[88, 32, 88] = s @ 88 # t" "[89, 32, 89] = s @ 89 # t"
      by (simp_all add: js_def)
    show False
    proof (cases s)
      case Nil
      with eqs have "t = [32, 88]" "t = [32, 89]" by auto
      then show False by simp
    next
      case (Cons a s')
      with eqs have "a = 88" "a = 89" by auto
      then show False by simp
    qed
  qed
  moreover have "render no_engine (js ''[a] [b]'') [js ''a'' \<mapsto> js ''[b]'', js ''b'' \<mapsto> js ''X'']
                   = Inr (js ''X X'')"
    by (simp add: render_defs char_defs)
  moreover have "render no_engine (js ''[a] [b]'') [js ''a'' \<mapsto> js ''[b]'', js ''b'' \<mapsto> js ''Y'']
                   = Inr (js ''Y Y'')"
    by (simp add: render_defs char_defs)
  moreover have "count_list (slot_names (tokens (js ''[a] [b]''))) (js ''b'') = 1"
    by (simp add: char_defs js_def line_terminator_def)
  ultimately show ?thesis by blast
qed

text \<open>
  C5, amended: rendering is a function of the template and the bindings. For every template
  with plain names and every two binding maps with plain values that differ in the value of
  one name \<open>n\<close> only, the two rendered messages are the same pieces of text around the
  places of the marker of \<open>n\<close>, one piece more than the marker has occurrences, with what
  stands for \<open>n\<close> under the one map and under the other at these places.
\<close>

theorem one_binding_changes_its_marker:
  assumes "plain_template body" and "plain_values body values" and "plain_values body values'"
    and "\<forall>k. k \<noteq> n \<longrightarrow> values' k = values k"
  shows "render E body values = render E body values \<and>
         (\<exists>m m'. render E body values = Inr m \<and> render E body values' = Inr m' \<and>
            differ_only_at (count_list (slot_names (tokens body)) n)
              (replacement values n) (replacement values' n) m m')"
proof -
  have "replacement values k = replacement values' k" if "k \<noteq> n" for k
    using assms(4) that by (simp add: replacement_def)
  from fill_join [of n "replacement values" "replacement values'", OF this]
  show ?thesis
    using render_fill [OF assms(1,2)] render_fill [OF assms(1,3)]
    by (simp add: differ_only_at_def)
qed

theorem one_binding_changes_its_marker_witness:
  "plain_template (js ''Oi [nome_cliente]'') \<and>
   plain_values (js ''Oi [nome_cliente]'') [nome_cliente \<mapsto> js ''Maria''] \<and>
   plain_values (js ''Oi [nome_cliente]'') [nome_cliente \<mapsto> js ''Joao''] \<and>
   render no_engine (js ''Oi [nome_cliente]'') [nome_cliente \<mapsto> js ''Maria''] = Inr (js ''Oi Maria'') \<and>
   render no_engine (js ''Oi [nome_cliente]'') [nome_cliente \<mapsto> js ''Joao''] = Inr (js ''Oi Joao'') \<and>
   differ_only_at 1 (js ''Maria'') (js ''Joao'') (js ''Oi Maria'') (js ''Oi Joao'')"
proof -
  let ?body = "js ''Oi [nome_cliente]''"
  have vars: "variables_of ?body = [nome_cliente]"
    by (simp add: name_defs render_defs char_defs)
  have h1: "plain_template ?body"
    unfolding plain_template_def vars
    by (simp add: plain_name_def name_defs syntax_character_def object_prototype_names_def
          js_def)
  have h2: "plain_values ?body [nome_cliente \<mapsto> js ''Maria'']"
    unfolding plain_values_def vars by (simp add: plain_value_def char_defs js_def)
  have h3: "plain_values ?body [nome_cliente \<mapsto> js ''Joao'']"
    unfolding plain_values_def vars by (simp add: plain_value_def char_defs js_def)
  have h4: "\<forall>k. k \<noteq> nome_cliente \<longrightarrow>
              [nome_cliente \<mapsto> js ''Joao''] k = [nome_cliente \<mapsto> js ''Maria''] k"
    by simp
  have r1: "render no_engine ?body [nome_cliente \<mapsto> js ''Maria''] = Inr (js ''Oi Maria'')"
    by (simp add: name_defs render_defs char_defs)
  have r2: "render no_engine ?body [nome_cliente \<mapsto> js ''Joao''] = Inr (js ''Oi Joao'')"
    by (simp add: name_defs render_defs char_defs)
  have n: "count_list (slot_names (tokens ?body)) nome_cliente = 1"
    by (simp add: name_defs char_defs js_def line_terminator_def)
  have v: "replacement [nome_cliente \<mapsto> js ''Maria''] nome_cliente = js ''Maria''"
    "replacement [nome_cliente \<mapsto> js ''Joao''] nome_cliente = js ''Joao''"
    by (simp_all add: replacement_def js_def)
  from one_binding_changes_its_marker [OF h1 h2 h3 h4, where E = no_engine]
  obtain m m' where "render no_engine ?body [nome_cliente \<mapsto> js ''Maria''] = Inr m"
    and "render no_engine ?body [nome_cliente \<mapsto> js ''Joao''] = Inr m'"
    and "differ_only_at (count_list (slot_names (tokens ?body)) nome_cliente)
           (replacement [nome_cliente \<mapsto> js ''Maria''] nome_cliente)
           (replacement [nome_cliente \<mapsto> js ''Joao''] nome_cliente) m m'"
    by blast
  with r1 r2 have "differ_only_at 1 (js ''Maria'') (js ''Joao'') (js ''Oi Maria'') (js ''Oi Joao'')"
    by (simp only: n v sum.inject)
  with h1 h2 h3 r1 r2 show ?thesis by simp
qed

section \<open>Completion\<close>

text \<open>
  C3, as the specification states it, fails. With the value of \<^verbatim>\<open>a\<close> being the text
  \<^verbatim>\<open>[a]\<close>, every placeholder has a value that is not empty, and the check of
  \<^verbatim>\<open>handleSendWhatsapp\<close> finds the message incomplete, with a marker left in it. And for
  the empty template, which has no placeholder and renders to a text without markers, the
  check finds the message incomplete as well, because it is empty.
\<close>

theorem bound_yet_incomplete:
  "all_bound (js ''[a]'') [js ''a'' \<mapsto> js ''[a]''] \<and>
   render no_engine (js ''[a]'') [js ''a'' \<mapsto> js ''[a]''] = Inr (js ''[a]'') \<and>
   message_incomplete (js ''[a]'') (variables_of (js ''[a]'')) \<and>
   \<not> no_marker_left (js ''[a]'') \<and>
   all_bound [] Map.empty \<and> render no_engine [] Map.empty = Inr [] \<and> no_marker_left [] \<and>
   message_incomplete [] (variables_of [])"
  by (simp add: all_bound_def bound_def message_incomplete_def no_marker_left_def render_defs
        char_defs)

text \<open>
  C3, amended: for every template with plain names and every binding map with plain values,
  the message is rendered, and the check of \<^verbatim>\<open>handleSendWhatsapp\<close> finds it complete if
  and only if it is not empty and every placeholder name found by the parser has a value
  that is not empty; and every placeholder name has such a value if and only if the
  rendered message has no marker left.
\<close>

theorem complete_iff_all_bound:
  assumes "plain_template body" and "plain_values body values"
  shows "\<exists>m. render E body values = Inr m \<and>
           (\<not> message_incomplete m (variables_of body) \<longleftrightarrow> m \<noteq> [] \<and> all_bound body values) \<and>
           (all_bound body values \<longleftrightarrow> no_marker_left m)"
proof -
  let ?ts = "tokens body" and ?g = "replacement values"
  let ?m = "fill ?g ?ts"
  have r: "render E body values = Inr ?m"
    using assms by (rule render_fill)
  have ok: "fills_ok ?g ?ts"
    using assms by (rule fills_ok_replacement)
  have keys: "set (variables_of body) = set (slot_names ?ts)"
    by (simp add: variables_of_slot_names)
  have inc: "js_includes ?m (marker k) \<longleftrightarrow> \<not> bound values k"
    if "k \<in> set (slot_names ?ts)" for k
    using includes_fill_iff [OF wf_tokens ok that] replacement_marker_iff
      plain_values_ok [OF assms(2) that]
    by simp
  have 1: "\<not> message_incomplete ?m (variables_of body) \<longleftrightarrow> ?m \<noteq> [] \<and> all_bound body values"
    using inc by (auto simp: message_incomplete_def all_bound_def list_ex_iff list_all_iff keys)
  have "no_marker_left ?m \<longleftrightarrow> (\<forall>k \<in> set (slot_names ?ts). ?g k \<noteq> marker k)"
    by (simp add: no_marker_left_def match_all_fill [OF wf_tokens ok] filter_empty_conv)
  also have "\<dots> \<longleftrightarrow> all_bound body values"
    using replacement_marker_iff plain_values_ok [OF assms(2)]
    by (auto simp: all_bound_def list_all_iff keys)
  finally have 2: "all_bound body values \<longleftrightarrow> no_marker_left ?m" by simp
  from r 1 2 show ?thesis by blast
qed

theorem complete_iff_all_bound_witness:
  "plain_template (js ''Oi [nome_cliente]'') \<and>
   plain_values (js ''Oi [nome_cliente]'') [nome_cliente \<mapsto> js ''Maria''] \<and>
   all_bound (js ''Oi [nome_cliente]'') [nome_cliente \<mapsto> js ''Maria''] \<and>
   render no_engine (js ''Oi [nome_cliente]'') [nome_cliente \<mapsto> js ''Maria''] = Inr (js ''Oi Maria'') \<and>
   \<not> message_incomplete (js ''Oi Maria'') (variables_of (js ''Oi [nome_cliente]'')) \<and>
   no_marker_left (js ''Oi Maria'')"
proof -
  let ?body = "js ''Oi [nome_cliente]''" and ?vals = "[nome_cliente \<mapsto> js ''Maria'']"
  have vars: "variables_of ?body = [nome_cliente]"
    by (simp add: name_defs render_defs char_defs)
  have h1: "plain_template ?body"
    unfolding plain_template_def vars
    by (simp add: plain_name_def name_defs syntax_character_def object_prototype_names_def
          js_def)
  have h2: "plain_values ?body ?vals"
    unfolding plain_values_def vars by (simp add: plain_value_def char_defs js_def)
  have b: "all_bound ?body ?vals"
    unfolding all_bound_def vars by (simp add: bound_def js_def)
  have r: "render no_engine ?body ?vals = Inr (js ''Oi Maria'')"
    by (simp add: name_defs render_defs char_defs)
  from complete_iff_all_bound [OF h1 h2, where E = no_engine] r b
  have "\<not> message_incomplete (js ''Oi Maria'') (variables_of ?body)"
    and "no_marker_left (js ''Oi Maria'')"
    by (auto simp: js_def)
  with h1 h2 b r show ?thesis by simp
qed

section \<open>Refusing to send\<close>

text \<open>
  For a template with plain names the three refusals hold: with a placeholder that has no
  value, with no recipient selected, or with a recipient whose contact address has no
  digit, a click ends in a notification and the window is not opened.
\<close>

lemma plain_dispatch_refused:
  assumes "selectedTemplate s = Some t" and "plain_template (content t)"
    and "\<not> all_bound (content t) (variableValues s) \<or> selectedCliente s = None
         \<or> (\<exists>c. selectedCliente s = Some c \<and> phone_of c = [])"
  shows "\<exists>reason. handleSendWhatsapp E s = Rejected reason"
proof -
  have vars: "variables s = variables_of (content t)"
    using assms(1) by (simp add: variables_def)
  have "\<forall>j \<in> set (variables_of (content t)). modelled_name j"
    using assms(2) by (simp add: plain_template_def list_all_iff plain_name_modelled)
  from substitute_each_modelled [OF this, of E "variableValues s" "content t"]
  obtain m where m: "generatedMessage E s = Inr m"
    using assms(1) by (auto simp: generatedMessage_def vars)
  have inc: "message_incomplete m (variables s)" if "\<not> all_bound (content t) (variableValues s)"
    using unbound_plain_placeholder_incomplete [OF assms(2) that, of E] m
    by (auto simp: generatedMessage_render [OF assms(1)] vars)
  show ?thesis
  proof (cases "selectedCliente s")
    case None
    with m show ?thesis by (simp add: handleSendWhatsapp_def)
  next
    case (Some c)
    with assms(3) inc have "message_incomplete m (variables s) \<or> phone_of c = []"
      by auto
    with m Some show ?thesis by (auto simp: handleSendWhatsapp_def)
  qed
qed

text \<open>
  C6 does not hold on the code for every template, because the name of a placeholder goes
  into the pattern of \<^verbatim>\<open>new RegExp\<close> as it is. In the template \<^verbatim>\<open>[x] [.]\<close> the pattern
  built for the name \<^verbatim>\<open>.\<close> matches the marker \<^verbatim>\<open>[x]\<close> too: with a value for \<^verbatim>\<open>.\<close>
  only, the marker of \<^verbatim>\<open>x\<close> is replaced by that value, the check of
  \<^verbatim>\<open>handleSendWhatsapp\<close> finds no marker, and the window is opened although \<^verbatim>\<open>x\<close> has
  no value.
\<close>

theorem unbound_placeholder_dispatched:
  "variables page_ponto = [js ''x'', js ''.''] \<and>
   variableValues page_ponto (js ''x'') = None \<and>
   \<not> all_bound (content modelo_ponto) (variableValues page_ponto) \<and>
   generatedMessage E page_ponto = Inr (js ''V V'') \<and>
   handleSendWhatsapp E page_ponto = WindowOpen (js ''https://wa.me/5511912345678?text=V%20V'')"
proof -
  have vars: "variables page_ponto = [js ''x'', js ''.'']"
    by (simp add: example_defs render_defs char_defs)
  have x: "variableValues page_ponto (js ''x'') = None"
    by (simp add: example_defs js_def)
  then have unbound: "\<not> all_bound (content modelo_ponto) (variableValues page_ponto)"
    using vars by (simp add: all_bound_def bound_def variables_def example_defs)
  have message: "generatedMessage E page_ponto = Inr (js ''V V'')"
    by (simp add: example_defs render_defs char_defs)
  have "\<not> message_incomplete (js ''V V'') (variables page_ponto)"
    unfolding vars by (simp add: message_incomplete_def marker_def char_defs js_def)
  moreover have "phone_of maria = js ''11912345678''"
    by (simp add: phone_of_def digit_def maria_def js_def)
  moreover have "encodeURIComponent (js ''V V'') = Inr (js ''V%20V'')"
    by (simp add: send_defs js_def)
  moreover have "selectedCliente page_ponto = Some maria"
    by (simp add: page_ponto_def)
  ultimately have "handleSendWhatsapp E page_ponto
                     = WindowOpen (js ''https://wa.me/5511912345678?text=V%20V'')"
    using message by (simp add: handleSendWhatsapp_def js_def)
  with vars x unbound message show ?thesis by simp
qed

text \<open>
  C8: for every engine and every page, the window is opened on a URL exactly when a
  recipient with a contact address is selected, the message is rendered and found complete,
  and the contact address has a digit; the address in the URL is then \<^verbatim>\<open>55\<close> followed by
  the digits of that contact address, every other character removed, and the text of the
  URL is the rendered message, percent-encoded. The digits are the ten code units of
  \<^verbatim>\<open>0123456789\<close> and no other. For the address \<^verbatim>\<open>(11) 91234-5678\<close> the address in the
  URL is \<^verbatim>\<open>5511912345678\<close> (shown on the example that follows).
\<close>

theorem whatsapp_address_normalised:
  "(handleSendWhatsapp E s = WindowOpen url \<longleftrightarrow>
     (\<exists>c tel message text.
        selectedCliente s = Some c \<and> telefone c = Some tel \<and>
        generatedMessage E s = Inr message \<and> \<not> message_incomplete message (variables s) \<and>
        filter digit tel \<noteq> [] \<and> encodeURIComponent message = Inr text \<and>
        url = js ''https://wa.me/'' @ (js ''55'' @ filter digit tel) @ js ''?text='' @ text)) \<and>
   (digit d \<longleftrightarrow> d \<in> set (js ''0123456789''))"
proof (intro conjI iffI)
  show "digit d" if "d \<in> set (js ''0123456789'')"
    using that by (simp only: digit_codes)
  show "d \<in> set (js ''0123456789'')" if "digit d"
    using that by (simp only: digit_codes)
next
  assume "handleSendWhatsapp E s = WindowOpen url"
  then show "\<exists>c tel message text.
        selectedCliente s = Some c \<and> telefone c = Some tel \<and>
        generatedMessage E s = Inr message \<and> \<not> message_incomplete message (variables s) \<and>
        filter digit tel \<noteq> [] \<and> encodeURIComponent message = Inr text \<and>
        url = js ''https://wa.me/'' @ (js ''55'' @ filter digit tel) @ js ''?text='' @ text"
    by (auto simp: handleSendWhatsapp_def phone_of_def js_def
             split: sum.splits option.splits if_splits)
next
  assume "\<exists>c tel message text.
        selectedCliente s = Some c \<and> telefone c = Some tel \<and>
        generatedMessage E s = Inr message \<and> \<not> message_incomplete message (variables s) \<and>
        filter digit tel \<noteq> [] \<and> encodeURIComponent message = Inr text \<and>
        url = js ''https://wa.me/'' @ (js ''55'' @ filter digit tel) @ js ''?text='' @ text"
  then show "handleSendWhatsapp E s = WindowOpen url"
    by (auto simp: handleSendWhatsapp_def phone_of_def js_def)
qed

theorem whatsapp_address_normalised_witness:
  "telefone maria = Some (js ''(11) 91234-5678'') \<and>
   js ''55'' @ filter digit (js ''(11) 91234-5678'') = js ''5511912345678'' \<and>
   filter digit (js ''/0123456789:'') = js ''0123456789'' \<and>
   handleSendWhatsapp no_engine page_curta
     = WindowOpen (js ''https://wa.me/5511912345678?text=Oi%20Maria'') \<and>
   (\<exists>c tel message text.
      selectedCliente page_curta = Some c \<and> telefone c = Some tel \<and>
      generatedMessage no_engine page_curta = Inr message \<and>
      encodeURIComponent message = Inr text \<and>
      js ''https://wa.me/5511912345678?text=Oi%20Maria''
        = js ''https://wa.me/'' @ (js ''55'' @ filter digit tel) @ js ''?text='' @ text)"
proof -
  have h: "handleSendWhatsapp no_engine page_curta
             = WindowOpen (js ''https://wa.me/5511912345678?text=Oi%20Maria'')"
    by (simp add: send_defs example_defs name_defs render_defs char_defs)
  have d: "js ''55'' @ filter digit (js ''(11) 91234-5678'') = js ''5511912345678''"
    "filter digit (js ''/0123456789:'') = js ''0123456789''"
    by (simp_all add: digit_def js_def)
  from h whatsapp_address_normalised
         [of no_engine page_curta "js ''https://wa.me/5511912345678?text=Oi%20Maria''"]
  have "\<exists>c tel message text.
      selectedCliente page_curta = Some c \<and> telefone c = Some tel \<and>
      generatedMessage no_engine page_curta = Inr message \<and>
      encodeURIComponent message = Inr text \<and>
      js ''https://wa.me/5511912345678?text=Oi%20Maria''
        = js ''https://wa.me/'' @ (js ''55'' @ filter digit tel) @ js ''?text='' @ text"
    by blast
  with h d show ?thesis
    by (simp add: maria_def)
qed

text \<open>
  C10: for every engine, with a recipient selected, a message that renders to the empty
  string is refused with the notification for unfilled variables, whatever the bindings
  and the contact address are; and a template with an empty body renders to the empty
  string.
\<close>

theorem empty_message_refused:
  assumes "selectedCliente s = Some c"
  shows "(generatedMessage E s = Inr [] \<longrightarrow>
            handleSendWhatsapp E s = Rejected PreenchaTodasAsVariaveis) \<and>
         (selectedTemplate s = Some t \<and> content t = [] \<longrightarrow> generatedMessage E s = Inr [])"
  using assms
  by (simp add: handleSendWhatsapp_def message_incomplete_def generatedMessage_def
        variables_def variables_of_def uniqueMatches_def)

theorem empty_message_refused_witness:
  "selectedCliente page_vazio = Some maria \<and> telefone maria \<noteq> None \<and>
   selectedTemplate page_vazio = Some modelo_vazio \<and> content modelo_vazio = [] \<and>
   generatedMessage no_engine page_vazio = Inr [] \<and>
   handleSendWhatsapp no_engine page_vazio = Rejected PreenchaTodasAsVariaveis"
proof -
  have h1: "selectedCliente page_vazio = Some maria"
    by (simp add: example_defs)
  have h2: "selectedTemplate page_vazio = Some modelo_vazio \<and> content modelo_vazio = []"
    by (simp add: example_defs)
  from empty_message_refused [OF h1, of no_engine modelo_vazio] h2
  have "generatedMessage no_engine page_vazio = Inr []"
    and "handleSendWhatsapp no_engine page_vazio = Rejected PreenchaTodasAsVariaveis"
    by blast+
  with h1 h2 show ?thesis
    by (simp add: maria_def)
qed

section \<open>Changing the recipient\<close>

lemma variables_handleSelectCliente [simp]:
  "variables (handleSelectCliente cid s) = variables s"
  by (simp add: handleSelectCliente_def variables_def fetchProcessosByCliente_sent_def Let_def
      split: option.splits)

lemma selectedTemplate_handleSelectCliente [simp]:
  "selectedTemplate (handleSelectCliente cid s) = selectedTemplate s"
  by (simp add: handleSelectCliente_def fetchProcessosByCliente_sent_def Let_def
      split: option.splits)

lemma selectedCliente_handleSelectCliente [simp]:
  "selectedCliente (handleSelectCliente cid s) = find (\<lambda>c. id_SupaCliente c = cid) (clientes s)"
  by (simp add: handleSelectCliente_def fetchProcessosByCliente_sent_def Let_def
      split: option.splits)

lemma variableValues_handleSelectCliente [simp]:
  "variableValues (handleSelectCliente cid s) =
     (variableValues s)(numero_processo := None, status_processo := None)"
  by (simp add: handleSelectCliente_def fetchProcessosByCliente_sent_def Let_def
      split: option.splits)

lemma processos_handleSelectCliente [simp]:
  "processos (handleSelectCliente cid s) = []"
  by (simp add: handleSelectCliente_def fetchProcessosByCliente_sent_def Let_def
      split: option.splits)

text \<open>
  C1, as the specification states it, fails: \<^verbatim>\<open>status_processo\<close> is drawn as a select over
  three fixed labels (an EnumeratedSelect slot), and \<^verbatim>\<open>handleSelectCliente\<close> deletes its
  binding. Here the status chosen for Maria is gone after Joao is selected.
\<close>

theorem recipient_change_clears_status:
  "classify status_processo = EnumeratedSelect \<and>
   selectedCliente page_scenario = Some maria \<and>
   variableValues page_scenario status_processo = Some (js ''Em Andamento'') \<and>
   selectedCliente (step page_scenario (SelectCliente (js ''c2''))) = Some joao \<and>
   variableValues (step page_scenario (SelectCliente (js ''c2''))) status_processo = None"
  by (simp add: classify_def handler_defs example_defs name_defs js_def)

text \<open>
  C1, amended: changing the selected recipient deletes the bindings of \<^verbatim>\<open>numero_processo\<close>
  (the RelationalSelect slot) and of \<^verbatim>\<open>status_processo\<close> (the EnumeratedSelect slot). Every
  binding of a Date slot is preserved, and so is every binding of a FreeText slot, with one
  exception: when the recipient is found, is not the one selected before and the template
  has the placeholder \<^verbatim>\<open>nome_cliente\<close>, the effect that follows sets \<^verbatim>\<open>nome_cliente\<close> to
  the name of the new recipient.
\<close>

theorem select_cliente_bindings:
  "variableValues (step s (SelectCliente cid)) k =
     (case classify k of
        RelationalSelect \<Rightarrow> None
      | EnumeratedSelect \<Rightarrow> None
      | Date \<Rightarrow> variableValues s k
      | FreeText \<Rightarrow>
          (case find (\<lambda>c. id_SupaCliente c = cid) (clientes s) of
             None \<Rightarrow> variableValues s k
           | Some c \<Rightarrow>
               if k = nome_cliente \<and> Some c \<noteq> selectedCliente s
                    \<and> nome_cliente \<in> set (variables s)
               then Some (nome c) else variableValues s k))"
  using names_distinct
  by (auto simp: classify_def after_render_def nome_cliente_effect_def split: option.splits)

theorem select_cliente_bindings_witness:
  "variableValues (step page_scenario (SelectCliente (js ''c2''))) numero_processo = None \<and>
   variableValues (step page_scenario (SelectCliente (js ''c2''))) status_processo = None \<and>
   variableValues (step page_scenario (SelectCliente (js ''c2''))) nome_cliente
     = Some (js ''Joao'')"
  using select_cliente_bindings [of page_scenario "js ''c2''" numero_processo]
        select_cliente_bindings [of page_scenario "js ''c2''" status_processo]
        select_cliente_bindings [of page_scenario "js ''c2''" nome_cliente]
  by (simp add: classify_def example_defs name_defs render_defs char_defs)

section \<open>The answer to a request\<close>

text \<open>
  C2, as the specification states it, fails: nothing compares the answer with the recipient
  selected when it arrives. After Maria and then Joao were selected, the answer to the
  request for Maria installs her case as the list of candidates while Joao is selected.
\<close>

theorem stale_response_installed:
  "run page0 [SelectCliente (js ''c1''), SelectCliente (js ''c2'')] = page_race \<and>
   selectedCliente page_race = Some joao \<and>
   pending page_race = [id_SupaCliente maria, id_SupaCliente joao] \<and>
   cliente_id processo_maria = id_SupaCliente maria \<and>
   selectedCliente (step page_race (Resolved 0 (Data (Some [processo_maria])))) = Some joao \<and>
   processos (step page_race (Resolved 0 (Data (Some [processo_maria])))) = [processo_maria]"
  by (simp add: handler_defs example_defs variables_def js_def)

text \<open>
  C2, amended: selecting a recipient empties the list of candidates at once. When the answer
  to a request arrives with rows, the rows become the list of candidates whichever recipient
  is selected at that time (an answer without rows empties the list); when it arrives with
  an error, the list stays as it is and a notification is shown. No answer changes the
  selected recipient or any binding.
\<close>

theorem response_installed_unguarded:
  assumes "i < length (pending s)"
  shows "processos (step s (SelectCliente cid)) = [] \<and>
         processos (step s (Resolved i (Data (Some rows)))) = rows \<and>
         processos (step s (Resolved i (Data None))) = [] \<and>
         processos (step s (Resolved i Error)) = processos s \<and>
         toasts (step s (Resolved i Error)) = toasts s @ [ProcessosNaoCarregados] \<and>
         selectedCliente (step s (Resolved i r)) = selectedCliente s \<and>
         variableValues (step s (Resolved i r)) = variableValues s"
  using assms
  by (auto simp: fetchProcessosByCliente_resolved_def after_render_def nome_cliente_effect_def
           split: response.splits option.splits)

theorem response_installed_unguarded_witness:
  "0 < length (pending page_race) \<and>
   processos (step page_race (Resolved 0 (Data (Some [processo_maria])))) = [processo_maria] \<and>
   selectedCliente (step page_race (Resolved 0 (Data (Some [processo_maria])))) = Some joao"
proof -
  have h: "0 < length (pending page_race)"
    by (simp add: page_race_def)
  have "selectedCliente page_race = Some joao"
    by (simp add: page_race_def)
  with response_installed_unguarded [OF h, of _ "[processo_maria]" "Data (Some [processo_maria])"] h
  show ?thesis by simp
qed

section \<open>Setting a value\<close>

lemma substitute_each_cong:
  "(\<And>k. k \<in> set keys \<Longrightarrow> values k = values' k) \<Longrightarrow>
   substitute_each E values keys m = substitute_each E values' keys m"
  by (induction keys arbitrary: m) (auto simp: replacement_def split: sum.splits)

text \<open>
  C7, as the specification states it, fails: \<^verbatim>\<open>handleVariableChange\<close> stores the value
  under any name, and writes no diagnostic. Here \<^verbatim>\<open>zzz\<close> is no placeholder of the scenario
  template, and is bound afterwards; nothing was written with \<^verbatim>\<open>console.error\<close>.
\<close>

theorem variable_change_stored:
  "js ''zzz'' \<notin> set (variables page_scenario) \<and>
   variableValues page_scenario (js ''zzz'') = None \<and>
   variableValues (handleVariableChange (js ''zzz'') (js ''v'') page_scenario) (js ''zzz'')
     = Some (js ''v'') \<and>
   console_errors (handleVariableChange (js ''zzz'') (js ''v'') page_scenario) = []"
  by (simp add: handleVariableChange_def example_defs name_defs render_defs char_defs)

text \<open>
  C7, amended: for every template and every engine, setting a value for a name that is no
  placeholder of the current template stores the value under that name and changes nothing
  else: the rendered message is the same, no notification is shown and nothing is logged.
\<close>

theorem variable_change_unknown_name:
  assumes "varName \<notin> set (variables s)"
  shows "variableValues (handleVariableChange varName v s) = (variableValues s)(varName \<mapsto> v) \<and>
         generatedMessage E (handleVariableChange varName v s) = generatedMessage E s \<and>
         toasts (handleVariableChange varName v s) = toasts s \<and>
         console_errors (handleVariableChange varName v s) = console_errors s"
proof -
  have "variables (handleVariableChange varName v s) = variables s"
    by (simp add: handleVariableChange_def variables_def)
  moreover have "substitute_each E ((variableValues s)(varName \<mapsto> v)) (variables s) m =
     substitute_each E (variableValues s) (variables s) m" for m
    using assms by (intro substitute_each_cong) auto
  ultimately show ?thesis
    by (cases "selectedTemplate s")
       (auto simp: generatedMessage_def handleVariableChange_def variables_def)
qed

theorem variable_change_unknown_name_witness:
  "js ''zzz'' \<notin> set (variables page_curta) \<and>
   generatedMessage no_engine (handleVariableChange (js ''zzz'') (js ''v'') page_curta)
     = generatedMessage no_engine page_curta \<and>
   console_errors (handleVariableChange (js ''zzz'') (js ''v'') page_curta)
     = console_errors page_curta"
proof -
  have h: "js ''zzz'' \<notin> set (variables page_curta)"
    by (simp add: example_defs name_defs render_defs char_defs)
  from variable_change_unknown_name [OF h, of "js ''v''"] h show ?thesis by simp
qed

end
